theory Spec2Isabelle
  imports Main "HOL-Library.Word"
begin

unbundle bit_operations_syntax

section \<open>Maze objects and directions (maze.h)\<close>

text \<open>
  The maze is a grid of bytes (\<^verbatim>\<open>char **maze\<close>), one byte per cell. An \<^verbatim>\<open>OBJECT\<close> is one
  such byte.
\<close>

type_synonym OBJECT = char

text \<open>Modelled from the spec: maze.h is not among the sources; \<^verbatim>\<open>EMPTY\<close> is the space
  character.\<close>

definition EMPTY :: OBJECT where
  "EMPTY = CHR '' ''"

text \<open>Modelled from the spec: maze.h is not among the sources; a cell is empty when it holds
  \<^verbatim>\<open>EMPTY\<close>.\<close>

definition IS_EMPTY :: "OBJECT \<Rightarrow> bool" where
  "IS_EMPTY c = (c = EMPTY)"

text \<open>Modelled from the spec: maze.h is not among the sources; an avatar is an ASCII letter
  \<^verbatim>\<open>A..Z\<close> (bytes 65 to 90).\<close>

definition IS_AVATAR :: "OBJECT \<Rightarrow> bool" where
  "IS_AVATAR c = (65 \<le> (of_char c :: nat) \<and> (of_char c :: nat) \<le> 90)"

text \<open>Modelled from the spec: maze.h is not among the sources; the directions are
  NORTH, WEST, SOUTH, EAST, encoded 0..3 in this order.\<close>

datatype DIRECTION = NORTH | WEST | SOUTH | EAST

fun dir_index :: "DIRECTION \<Rightarrow> nat" where
  "dir_index NORTH = 0"
| "dir_index WEST = 1"
| "dir_index SOUTH = 2"
| "dir_index EAST = 3"

fun dir_of_index :: "nat \<Rightarrow> DIRECTION" where
  "dir_of_index n =
     (if n mod 4 = 0 then NORTH else if n mod 4 = 1 then WEST
      else if n mod 4 = 2 then SOUTH else EAST)"

text \<open>Modelled from the spec: maze.h is not among the sources;
  \<^verbatim>\<open>REVERSE(d) = (d+2) mod 4\<close>, \<^verbatim>\<open>TURN_LEFT(d) = (d+1) mod 4\<close>,
  \<^verbatim>\<open>TURN_RIGHT(d) = (d+3) mod 4\<close>.\<close>

definition REVERSE :: "DIRECTION \<Rightarrow> DIRECTION" where
  "REVERSE d = dir_of_index ((dir_index d + 2) mod 4)"

definition TURN_LEFT :: "DIRECTION \<Rightarrow> DIRECTION" where
  "TURN_LEFT d = dir_of_index ((dir_index d + 1) mod 4)"

definition TURN_RIGHT :: "DIRECTION \<Rightarrow> DIRECTION" where
  "TURN_RIGHT d = dir_of_index ((dir_index d + 3) mod 4)"


section \<open>The maze (maze.c)\<close>

text \<open>
  The three globals of maze.c: the grid, and its dimensions. The mutex is left out: every
  function below is one critical section, run from its lock to its unlock.
\<close>

record maze_state =
  maze :: "string list"
  maze_rows :: int
  maze_cols :: int

text \<open>\<^verbatim>\<open>maze_init\<close>: an empty template is refused and leaves the globals as they are;
  otherwise the rows are copied, \<^verbatim>\<open>maze_cols\<close> is the length of the first row and
  \<^verbatim>\<open>maze_rows\<close> the number of rows.\<close>

definition maze_init :: "maze_state \<Rightarrow> string list \<Rightarrow> maze_state" where
  "maze_init m template =
     (case template of
        [] \<Rightarrow> m
      | row0 # _ \<Rightarrow>
          \<lparr> maze = template, maze_rows = int (length template), maze_cols = int (length row0) \<rparr>)"

text \<open>What \<^verbatim>\<open>maze_init\<close> assumes of its template ("Assume all rows same length"): the grid
  has \<^verbatim>\<open>maze_rows\<close> rows of \<^verbatim>\<open>maze_cols\<close> cells each.\<close>

definition wf_maze :: "maze_state \<Rightarrow> bool" where
  "wf_maze m =
     (maze_rows m = int (length (maze m)) \<and>
      list_all (\<lambda>row. int (length row) = maze_cols m) (maze m))"

text \<open>The bounds test that every maze function writes out, negated:
  \<^verbatim>\<open>row < 0 || row >= maze_rows || col < 0 || col >= maze_cols\<close>.\<close>

definition out_of_bounds :: "maze_state \<Rightarrow> int \<Rightarrow> int \<Rightarrow> bool" where
  "out_of_bounds m r c = (r < 0 \<or> r \<ge> maze_rows m \<or> c < 0 \<or> c \<ge> maze_cols m)"

text \<open>\<^verbatim>\<open>maze[r][c]\<close>, read and written. Both are used on in-bounds cells only.\<close>

definition maze_at :: "maze_state \<Rightarrow> int \<Rightarrow> int \<Rightarrow> OBJECT" where
  "maze_at m r c = maze m ! nat r ! nat c"

definition maze_put :: "maze_state \<Rightarrow> int \<Rightarrow> int \<Rightarrow> OBJECT \<Rightarrow> maze_state" where
  "maze_put m r c v = m\<lparr> maze := (maze m)[nat r := (maze m ! nat r)[nat c := v]] \<rparr>"

text \<open>The offset tables of \<^verbatim>\<open>maze_move\<close>, \<^verbatim>\<open>maze_find_target\<close> and \<^verbatim>\<open>maze_get_view\<close>,
  indexed by direction.\<close>

definition drow :: "int list" where
  "drow = [-1, 0, 1, 0]"

definition dcol :: "int list" where
  "dcol = [0, -1, 0, 1]"

text \<open>\<^verbatim>\<open>maze_set_player\<close>: \<open>None\<close> is the return value -1 (the maze is unchanged then),
  \<open>Some\<close> the return value 0 with the updated maze.\<close>

definition maze_set_player :: "maze_state \<Rightarrow> OBJECT \<Rightarrow> int \<Rightarrow> int \<Rightarrow> maze_state option" where
  "maze_set_player m avatar r c =
     (if r < 0 \<or> r \<ge> maze_rows m \<or> c < 0 \<or> c \<ge> maze_cols m then None
      else if \<not> IS_EMPTY (maze_at m r c) then None
      else Some (maze_put m r c avatar))"

text \<open>\<^verbatim>\<open>maze_move\<close>: \<open>None\<close> is the return value -1 (the maze is unchanged then),
  \<open>Some\<close> the return value 0 with the updated maze.\<close>

definition maze_move :: "maze_state \<Rightarrow> int \<Rightarrow> int \<Rightarrow> DIRECTION \<Rightarrow> maze_state option" where
  "maze_move m r c d =
     (if r < 0 \<or> r \<ge> maze_rows m \<or> c < 0 \<or> c \<ge> maze_cols m \<or> \<not> IS_AVATAR (maze_at m r c)
      then None
      else
        let new_row = r + drow ! dir_index d;
            new_col = c + dcol ! dir_index d
        in if new_row < 0 \<or> new_row \<ge> maze_rows m \<or> new_col < 0 \<or> new_col \<ge> maze_cols m \<or>
              \<not> IS_EMPTY (maze_at m new_row new_col)
           then None
           else Some (maze_put (maze_put m new_row new_col (maze_at m r c)) r c EMPTY))"

text \<open>The forward offset of a direction, as the specification lists it:
  N:(-1,0), W:(0,-1), S:(+1,0), E:(0,+1).\<close>

fun offset :: "DIRECTION \<Rightarrow> int \<times> int" where
  "offset NORTH = (-1, 0)"
| "offset WEST = (0, -1)"
| "offset SOUTH = (1, 0)"
| "offset EAST = (0, 1)"

text \<open>\<^verbatim>\<open>maze_find_target\<close>: the loop starts at (r,c), steps first and tests afterwards. It
  ends because every step moves towards one edge of the grid. The function writes no cell;
  the second component of the result is the maze as it was.\<close>

function maze_find_target_loop :: "maze_state \<Rightarrow> int \<Rightarrow> int \<Rightarrow> DIRECTION \<Rightarrow> OBJECT" where
  "maze_find_target_loop m r c d =
     (if r \<ge> 0 \<and> r < maze_rows m \<and> c \<ge> 0 \<and> c < maze_cols m then
        let r' = r + drow ! dir_index d;
            c' = c + dcol ! dir_index d
        in if r' < 0 \<or> r' \<ge> maze_rows m \<or> c' < 0 \<or> c' \<ge> maze_cols m then EMPTY
           else if \<not> IS_EMPTY (maze_at m r' c') then
             (let result = maze_at m r' c' in if IS_AVATAR result then result else EMPTY)
           else maze_find_target_loop m r' c' d
      else EMPTY)"
  by pat_completeness auto
termination
  by (relation "measure (\<lambda>(m, r, c, d).
        case d of NORTH \<Rightarrow> nat (r + 1) | SOUTH \<Rightarrow> nat (maze_rows m - r)
                | WEST \<Rightarrow> nat (c + 1) | EAST \<Rightarrow> nat (maze_cols m - c))")
     (auto simp: drow_def dcol_def split: DIRECTION.splits)

declare maze_find_target_loop.simps [simp del]

definition maze_find_target :: "maze_state \<Rightarrow> int \<Rightarrow> int \<Rightarrow> DIRECTION \<Rightarrow> OBJECT \<times> maze_state" where
  "maze_find_target m r c d = (maze_find_target_loop m r c d, m)"

text \<open>The k-th cell of the ray from (r,c) in direction d, and the test that the scan stops
  at step k and not before: the cells at steps 1 to k-1 are in bounds and empty, the cell at
  step k is outside the grid or not empty.\<close>

definition ray_cell :: "int \<Rightarrow> int \<Rightarrow> DIRECTION \<Rightarrow> nat \<Rightarrow> int \<times> int" where
  "ray_cell r c d k = (r + int k * fst (offset d), c + int k * snd (offset d))"

definition ray_open :: "maze_state \<Rightarrow> int \<times> int \<Rightarrow> bool" where
  "ray_open m p = (\<not> out_of_bounds m (fst p) (snd p) \<and> IS_EMPTY (maze_at m (fst p) (snd p)))"

definition stops_at :: "maze_state \<Rightarrow> int \<Rightarrow> int \<Rightarrow> DIRECTION \<Rightarrow> nat \<Rightarrow> bool" where
  "stops_at m r c d k =
     (1 \<le> k \<and> list_all (\<lambda>j. ray_open m (ray_cell r c d j)) [1..<k] \<and>
      \<not> ray_open m (ray_cell r c d k))"

text \<open>What the scan returns when it stops at the cell p: the byte of p when p is a cell of
  the grid that holds an avatar, and \<^verbatim>\<open>EMPTY\<close> otherwise.\<close>

definition target_of :: "maze_state \<Rightarrow> int \<times> int \<Rightarrow> OBJECT" where
  "target_of m p =
     (if \<not> out_of_bounds m (fst p) (snd p) \<and> IS_AVATAR (maze_at m (fst p) (snd p))
      then maze_at m (fst p) (snd p) else EMPTY)"

text \<open>Modelled from the spec: maze.h is not among the sources; a view is an array of rows
  of three bytes, \<^verbatim>\<open>LEFT_WALL\<close>, \<^verbatim>\<open>CORRIDOR\<close>, \<^verbatim>\<open>RIGHT_WALL\<close> at the indices 0, 1, 2.\<close>

type_synonym VIEW = "OBJECT list list"

definition LEFT_WALL :: nat where
  "LEFT_WALL = 0"

definition CORRIDOR :: nat where
  "CORRIDOR = 1"

definition RIGHT_WALL :: nat where
  "RIGHT_WALL = 2"

definition VIEW_WIDTH :: nat where
  "VIEW_WIDTH = 3"

text \<open>\<^verbatim>\<open>(*view)[d][x] = v\<close>.\<close>

definition view_put :: "VIEW \<Rightarrow> nat \<Rightarrow> nat \<Rightarrow> OBJECT \<Rightarrow> VIEW" where
  "view_put view d x v = view[d := (view ! d)[x := v]]"

text \<open>The tables of \<^verbatim>\<open>maze_get_view\<close> for the cell written to \<^verbatim>\<open>LEFT_WALL\<close>; the cell
  written to \<^verbatim>\<open>RIGHT_WALL\<close> is at the negated offset.\<close>

definition lrow :: "int list" where
  "lrow = [0, -1, 0, 1]"

definition lcol :: "int list" where
  "lcol = [-1, 0, 1, 0]"

text \<open>\<^verbatim>\<open>maze_get_view\<close>: the loop over \<^verbatim>\<open>d\<close>, with the view buffer and
  \<^verbatim>\<open>actual_depth\<close> passed along. The result is the view buffer and the returned depth.
  \<open>None\<close> stands for a write past the end of the view buffer, which the C code does not
  check for.\<close>

function maze_get_view_loop ::
  "maze_state \<Rightarrow> VIEW \<Rightarrow> int \<Rightarrow> int \<Rightarrow> DIRECTION \<Rightarrow> int \<Rightarrow> int \<Rightarrow> int \<Rightarrow> (VIEW \<times> int) option" where
  "maze_get_view_loop m view row col gaze depth d actual_depth =
     (if d < depth then
        let r = row + d * drow ! dir_index gaze;
            c = col + d * dcol ! dir_index gaze
        in if r < 0 \<or> r \<ge> maze_rows m \<or> c < 0 \<or> c \<ge> maze_cols m then Some (view, actual_depth)
           else if d < 0 \<or> d \<ge> int (length view) then None
           else
             let view1 = view_put view (nat d) CORRIDOR (maze_at m r c);
                 rl = r + lrow ! dir_index gaze;
                 cl = c + lcol ! dir_index gaze;
                 view2 = view_put view1 (nat d) LEFT_WALL
                           (if rl < 0 \<or> rl \<ge> maze_rows m \<or> cl < 0 \<or> cl \<ge> maze_cols m
                            then CHR ''*'' else maze_at m rl cl);
                 rr = r - lrow ! dir_index gaze;
                 cr = c - lcol ! dir_index gaze;
                 view3 = view_put view2 (nat d) RIGHT_WALL
                           (if rr < 0 \<or> rr \<ge> maze_rows m \<or> cr < 0 \<or> cr \<ge> maze_cols m
                            then CHR ''*'' else maze_at m rr cr)
             in maze_get_view_loop m view3 row col gaze depth (d + 1) (actual_depth + 1)
      else Some (view, actual_depth))"
  by pat_completeness auto
termination
  by (relation "measure (\<lambda>(m, view, row, col, gaze, depth, d, actual_depth). nat (depth - d))")
     auto

declare maze_get_view_loop.simps [simp del]

definition maze_get_view ::
  "maze_state \<Rightarrow> VIEW \<Rightarrow> int \<Rightarrow> int \<Rightarrow> DIRECTION \<Rightarrow> int \<Rightarrow> (VIEW \<times> int) option" where
  "maze_get_view m view row col gaze depth = maze_get_view_loop m view row col gaze depth 0 0"

text \<open>The offset of the cell to the left of the gaze, as the specification lists it:
  N:(0,-1), W:(+1,0), S:(0,+1), E:(-1,0).\<close>

fun left_offset :: "DIRECTION \<Rightarrow> int \<times> int" where
  "left_offset NORTH = (0, -1)"
| "left_offset WEST = (1, 0)"
| "left_offset SOUTH = (0, 1)"
| "left_offset EAST = (-1, 0)"

text \<open>A small maze used to run the functions on concrete input: a corridor with the
  avatar \<^verbatim>\<open>A\<close> at (1,1) and the avatar \<^verbatim>\<open>B\<close> at (1,3).\<close>

definition demo_maze :: maze_state where
  "demo_maze = \<lparr> maze = [''*****'', ''*A B*'', ''* * *'', ''*   *'', ''*****''],
                 maze_rows = 5, maze_cols = 5 \<rparr>"


section \<open>The client registry (client_registry.c)\<close>

definition MAX_CLIENTS :: nat where
  "MAX_CLIENTS = 128"

text \<open>\<^verbatim>\<open>struct client_registry\<close>: the array of descriptors (-1 marks a free slot), the
  count, and the semaphore \<^verbatim>\<open>empty\<close>, of which the value is kept. The mutex is left out:
  each function is one critical section.\<close>

record client_registry =
  client_fds :: "int list"
  count :: int
  empty :: nat

text \<open>\<^verbatim>\<open>creg_init\<close>; the argument says whether \<^verbatim>\<open>malloc\<close> succeeded, \<open>None\<close> is the
  \<^verbatim>\<open>NULL\<close> it returns otherwise.\<close>

definition creg_init :: "bool \<Rightarrow> client_registry option" where
  "creg_init malloc_ok =
     (if \<not> malloc_ok then None
      else Some \<lparr> client_fds = replicate MAX_CLIENTS (-1), count = 0, empty = 0 \<rparr>)"

text \<open>The array has \<^verbatim>\<open>MAX_CLIENTS\<close> slots.\<close>

definition wf_registry :: "client_registry \<Rightarrow> bool" where
  "wf_registry cr = (length (client_fds cr) = MAX_CLIENTS)"

text \<open>\<^verbatim>\<open>creg_register\<close>: the loop takes the first free slot and stops; when no slot is free
  it runs to the end and changes nothing.\<close>

function creg_register_loop :: "client_registry \<Rightarrow> int \<Rightarrow> nat \<Rightarrow> client_registry" where
  "creg_register_loop cr fd i =
     (if i < MAX_CLIENTS then
        (if client_fds cr ! i = -1
         then cr\<lparr> client_fds := (client_fds cr)[i := fd], count := count cr + 1 \<rparr>
         else creg_register_loop cr fd (i + 1))
      else cr)"
  by pat_completeness auto
termination
  by (relation "measure (\<lambda>(cr, fd, i). MAX_CLIENTS - i)") auto

declare creg_register_loop.simps [simp del]

definition creg_register :: "client_registry \<Rightarrow> int \<Rightarrow> client_registry" where
  "creg_register cr fd = creg_register_loop cr fd 0"

definition sem_post :: "client_registry \<Rightarrow> client_registry" where
  "sem_post cr = cr\<lparr> empty := empty cr + 1 \<rparr>"

text \<open>\<^verbatim>\<open>creg_unregister\<close>: the loop frees the first slot that holds \<^verbatim>\<open>fd\<close>; after the
  loop, whatever it did, the semaphore is posted when the count is 0.\<close>

function creg_unregister_loop :: "client_registry \<Rightarrow> int \<Rightarrow> nat \<Rightarrow> client_registry" where
  "creg_unregister_loop cr fd i =
     (if i < MAX_CLIENTS then
        (if client_fds cr ! i = fd
         then cr\<lparr> client_fds := (client_fds cr)[i := -1], count := count cr - 1 \<rparr>
         else creg_unregister_loop cr fd (i + 1))
      else cr)"
  by pat_completeness auto
termination
  by (relation "measure (\<lambda>(cr, fd, i). MAX_CLIENTS - i)") auto

declare creg_unregister_loop.simps [simp del]

definition creg_unregister :: "client_registry \<Rightarrow> int \<Rightarrow> client_registry" where
  "creg_unregister cr fd =
     (let cr1 = creg_unregister_loop cr fd 0
      in if count cr1 = 0 then sem_post cr1 else cr1)"

text \<open>\<^verbatim>\<open>creg_wait_for_empty\<close>: with a count of 0 it returns at once. Otherwise it waits on
  the semaphore: it takes a post that is already there, and blocks when there is none;
  \<open>None\<close> is the blocked caller, which only another thread's post can release.\<close>

definition creg_wait_for_empty :: "client_registry \<Rightarrow> client_registry option" where
  "creg_wait_for_empty cr =
     (if count cr = 0 then Some cr
      else if empty cr > 0 then Some (cr\<lparr> empty := empty cr - 1 \<rparr>)
      else None)"

text \<open>\<^verbatim>\<open>creg_shutdown_all\<close>: the descriptors on which \<^verbatim>\<open>shutdown(fd, SHUT_RD)\<close> is called,
  in the order of the calls. The registry is not changed.\<close>

function creg_shutdown_all_loop :: "client_registry \<Rightarrow> nat \<Rightarrow> int list" where
  "creg_shutdown_all_loop cr i =
     (if i < MAX_CLIENTS then
        (if client_fds cr ! i \<noteq> -1
         then client_fds cr ! i # creg_shutdown_all_loop cr (i + 1)
         else creg_shutdown_all_loop cr (i + 1))
      else [])"
  by pat_completeness auto
termination
  by (relation "measure (\<lambda>(cr, i). MAX_CLIENTS - i)") auto

declare creg_shutdown_all_loop.simps [simp del]

definition creg_shutdown_all :: "client_registry \<Rightarrow> int list" where
  "creg_shutdown_all cr = creg_shutdown_all_loop cr 0"

text \<open>A registry with all 128 slots taken, by the descriptors 3 to 130.\<close>

definition full_registry :: client_registry where
  "full_registry = \<lparr> client_fds = map int [3..<131], count = 128, empty = 0 \<rparr>"


section \<open>The wire protocol (protocol.h, protocol.c)\<close>

type_synonym byte = "8 word"

text \<open>Modelled from the spec: protocol.h is not among the sources; the packet header is the
  fixed 16-byte record \<^verbatim>\<open>{type:u8, size:u16, param1:u8, param2:u8, param3:u8,
  timestamp_sec:u32, timestamp_nsec:u32}\<close>. The type of the \<^verbatim>\<open>type\<close> field is a parameter:
  on the wire it is a byte, in the server it is one of the packet types below. The field
  \<^verbatim>\<open>size\<close> is named \<open>size'\<close> here.\<close>

record 'ty MZW_PACKET =
  type :: 'ty
  size' :: "16 word"
  param1 :: byte
  param2 :: byte
  param3 :: byte
  timestamp_sec :: "32 word"
  timestamp_nsec :: "32 word"

text \<open>The byte order of the host. \<^verbatim>\<open>htons\<close> and \<^verbatim>\<open>htonl\<close> reverse the bytes of their
  argument on a little-endian host and return it as it is on a big-endian one;
  \<^verbatim>\<open>ntohs\<close> and \<^verbatim>\<open>ntohl\<close> are the same functions.\<close>

datatype endian = LittleEndian | BigEndian

definition cat16 :: "byte \<Rightarrow> byte \<Rightarrow> 16 word" where
  "cat16 b0 b1 = ucast b0 OR push_bit 8 (ucast b1)"

definition cat32 :: "byte \<Rightarrow> byte \<Rightarrow> byte \<Rightarrow> byte \<Rightarrow> 32 word" where
  "cat32 b0 b1 b2 b3 =
     ucast b0 OR push_bit 8 (ucast b1) OR push_bit 16 (ucast b2) OR push_bit 24 (ucast b3)"

definition htons :: "endian \<Rightarrow> 16 word \<Rightarrow> 16 word" where
  "htons e x =
     (case e of BigEndian \<Rightarrow> x
      | LittleEndian \<Rightarrow> cat16 (ucast (drop_bit 8 x)) (ucast x))"

definition htonl :: "endian \<Rightarrow> 32 word \<Rightarrow> 32 word" where
  "htonl e x =
     (case e of BigEndian \<Rightarrow> x
      | LittleEndian \<Rightarrow>
          cat32 (ucast (drop_bit 24 x)) (ucast (drop_bit 16 x)) (ucast (drop_bit 8 x)) (ucast x))"

definition ntohs :: "endian \<Rightarrow> 16 word \<Rightarrow> 16 word" where
  "ntohs e x = htons e x"

definition ntohl :: "endian \<Rightarrow> 32 word \<Rightarrow> 32 word" where
  "ntohl e x = htonl e x"

text \<open>The bytes of a 16-bit and of a 32-bit value in the memory of the host, lowest address
  first, and the value that the host reads from such bytes.\<close>

definition mem16 :: "endian \<Rightarrow> 16 word \<Rightarrow> byte list" where
  "mem16 e x =
     (case e of LittleEndian \<Rightarrow> [ucast x, ucast (drop_bit 8 x)]
      | BigEndian \<Rightarrow> [ucast (drop_bit 8 x), ucast x])"

definition mem32 :: "endian \<Rightarrow> 32 word \<Rightarrow> byte list" where
  "mem32 e x =
     (case e of
        LittleEndian \<Rightarrow> [ucast x, ucast (drop_bit 8 x), ucast (drop_bit 16 x), ucast (drop_bit 24 x)]
      | BigEndian \<Rightarrow> [ucast (drop_bit 24 x), ucast (drop_bit 16 x), ucast (drop_bit 8 x), ucast x])"

definition val16 :: "endian \<Rightarrow> byte \<Rightarrow> byte \<Rightarrow> 16 word" where
  "val16 e a0 a1 = (case e of LittleEndian \<Rightarrow> cat16 a0 a1 | BigEndian \<Rightarrow> cat16 a1 a0)"

definition val32 :: "endian \<Rightarrow> byte \<Rightarrow> byte \<Rightarrow> byte \<Rightarrow> byte \<Rightarrow> 32 word" where
  "val32 e a0 a1 a2 a3 =
     (case e of LittleEndian \<Rightarrow> cat32 a0 a1 a2 a3 | BigEndian \<Rightarrow> cat32 a3 a2 a1 a0)"

text \<open>Modelled from the spec: protocol.h is not among the sources; the 16 bytes of a header
  in memory, the fields in the order of the record above, each at the next offset that is a
  multiple of its size: type at 0, size at 2, the params at 4, 5, 6, the timestamps at 8 and
  12. The bytes at 1 and 7 are padding, of any content.\<close>

definition sizeof_MZW_PACKET :: nat where
  "sizeof_MZW_PACKET = 16"

definition header_bytes :: "endian \<Rightarrow> byte \<times> byte \<Rightarrow> byte MZW_PACKET \<Rightarrow> byte list" where
  "header_bytes e pad p =
     [type p, fst pad] @ mem16 e (size' p) @ [param1 p, param2 p, param3 p, snd pad] @
     mem32 e (timestamp_sec p) @ mem32 e (timestamp_nsec p)"

definition header_of_bytes :: "endian \<Rightarrow> byte list \<Rightarrow> byte MZW_PACKET" where
  "header_of_bytes e bs =
     \<lparr> type = bs ! 0, size' = val16 e (bs ! 2) (bs ! 3),
       param1 = bs ! 4, param2 = bs ! 5, param3 = bs ! 6,
       timestamp_sec = val32 e (bs ! 8) (bs ! 9) (bs ! 10) (bs ! 11),
       timestamp_nsec = val32 e (bs ! 12) (bs ! 13) (bs ! 14) (bs ! 15) \<rparr>"

text \<open>A descriptor written to: the bytes written so far, and what the coming calls of
  \<^verbatim>\<open>write\<close> will return (a positive number of bytes accepted, or a failure when it is not
  positive). After the end of that list every \<^verbatim>\<open>write\<close> takes all it is given.\<close>

record out_fd =
  written :: "byte list"
  write_results :: "int list"

definition write_call :: "out_fd \<Rightarrow> byte list \<Rightarrow> int \<times> out_fd" where
  "write_call fd buf =
     (case write_results fd of
        [] \<Rightarrow> (int (length buf), fd\<lparr> written := written fd @ buf \<rparr>)
      | n # rest \<Rightarrow>
          if n \<le> 0 then (n, fd\<lparr> write_results := rest \<rparr>)
          else (int (min (nat n) (length buf)),
                fd\<lparr> written := written fd @ take (min (nat n) (length buf)) buf,
                    write_results := rest \<rparr>))"

text \<open>\<^verbatim>\<open>write_all\<close>: the first component is the return value, 0 or -1.\<close>

function write_all :: "out_fd \<Rightarrow> byte list \<Rightarrow> int \<times> out_fd" where
  "write_all fd buf =
     (if length buf > 0 then
        (case write_call fd buf of
           (n, fd') \<Rightarrow> if n \<le> 0 then (-1, fd') else write_all fd' (drop (nat n) buf))
      else (0, fd))"
  by pat_completeness auto
termination
  by (relation "measure (\<lambda>(fd, buf). length buf)") auto

declare write_all.simps [simp del]

text \<open>\<^verbatim>\<open>proto_send_packet\<close>. The clock reading is an argument (\<open>None\<close> when
  \<^verbatim>\<open>clock_gettime\<close> fails), as are the two padding bytes of the header copy. The result is
  the return value, the packet with its timestamps set, and the descriptor. The outer
  \<open>None\<close> stands for a payload buffer shorter than \<^verbatim>\<open>pkt->size\<close> bytes, of which the C code
  would read past the end.\<close>

definition proto_send_packet ::
  "endian \<Rightarrow> (int \<times> int) option \<Rightarrow> byte \<times> byte \<Rightarrow> out_fd \<Rightarrow> byte MZW_PACKET \<Rightarrow>
   byte list option \<Rightarrow> (int \<times> byte MZW_PACKET \<times> out_fd) option" where
  "proto_send_packet e clock pad fd pkt data =
     (case clock of
        None \<Rightarrow> Some (-1, pkt, fd)
      | Some (tv_sec, tv_nsec) \<Rightarrow>
          let pkt1 = pkt\<lparr> timestamp_sec := word_of_int tv_sec,
                          timestamp_nsec := word_of_int tv_nsec \<rparr>;
              copy = pkt1\<lparr> size' := htons e (size' pkt1),
                           timestamp_sec := htonl e (timestamp_sec pkt1),
                           timestamp_nsec := htonl e (timestamp_nsec pkt1) \<rparr>
          in case write_all fd (header_bytes e pad copy) of
               (rc, fd1) \<Rightarrow>
                 if rc < 0 then Some (-1, pkt1, fd1)
                 else if size' pkt1 > 0 \<and> data \<noteq> None then
                   (if length (the data) < unat (size' pkt1) then None
                    else case write_all fd1 (take (unat (size' pkt1)) (the data)) of
                           (rc2, fd2) \<Rightarrow>
                             if rc2 < 0 then Some (-1, pkt1, fd2) else Some (0, pkt1, fd2))
                 else Some (0, pkt1, fd1))"

text \<open>A descriptor read from: what the coming calls of \<^verbatim>\<open>read\<close> will find. \<open>RBytes\<close> are
  bytes that have arrived (a \<^verbatim>\<open>read\<close> takes at most as many as it asked for and leaves the
  rest), \<open>REof\<close> is the end of the stream, \<open>RErr\<close> a failed call with its
  \<^verbatim>\<open>errno\<close>. After the end of the list the stream is at its end.\<close>

datatype errno = EINTR | EAGAIN | EBADF | ECONNRESET | EIO

datatype read_event = RBytes "byte list" | REof | RErr errno

text \<open>One call \<^verbatim>\<open>read(fd, ptr, count)\<close>: the bytes it stores (none at the end of the
  stream) or the \<^verbatim>\<open>errno\<close> of its failure.\<close>

datatype read_ret = Got "byte list" | Fail errno

fun read_call :: "read_event list \<Rightarrow> nat \<Rightarrow> read_ret \<times> read_event list" where
  "read_call [] n = (Got [], [])"
| "read_call (REof # rest) n = (Got [], rest)"
| "read_call (RErr e # rest) n = (Fail e, rest)"
| "read_call (RBytes bs # rest) n =
     (if length bs \<le> n then (Got bs, rest)
      else (Got (take n bs), RBytes (drop n bs) # rest))"

lemma read_call_Fail_shorter: "read_call fd n = (Fail e, fd') \<Longrightarrow> length fd' < length fd"
  by (induction fd n rule: read_call.induct) (auto split: if_splits)

lemma read_call_Got_bounds:
  "read_call fd n = (Got bs, fd') \<Longrightarrow> length bs \<le> n \<and> length fd' \<le> length fd"
  by (induction fd n rule: read_call.induct) (auto split: if_splits)

lemma read_call_Got_measure:
  "read_call fd n = (Got bs, fd') \<Longrightarrow> bs \<noteq> [] \<Longrightarrow>
     length fd' + (n - length bs) < length fd + n"
  using read_call_Got_bounds [of fd n bs fd'] by (cases bs) auto

text \<open>\<^verbatim>\<open>read_all\<close>, with the buffer filled so far as an argument: \<open>None\<close> is the return
  value -1, \<open>Some\<close> the return value 0 with the filled buffer and the descriptor.\<close>

function read_all ::
  "read_event list \<Rightarrow> nat \<Rightarrow> byte list \<Rightarrow> (byte list \<times> read_event list) option" where
  "read_all fd n buf =
     (if n > 0 then
        (case read_call fd n of
           (Fail e, fd') \<Rightarrow> if e = EINTR then read_all fd' n buf else None
         | (Got bs, fd') \<Rightarrow>
             if length bs = 0 then None else read_all fd' (n - length bs) (buf @ bs))
      else Some (buf, fd))"
  by pat_completeness auto
termination
  by (relation "measure (\<lambda>(fd, n, buf). length fd + n)")
     (auto dest: read_call_Fail_shorter [OF sym] read_call_Got_measure [OF sym])

declare read_all.simps [simp del]

text \<open>\<^verbatim>\<open>proto_recv_packet\<close>; the argument \<open>malloc_ok\<close> says whether the allocation of the
  payload buffer succeeds. \<open>None\<close> is the return value -1, \<open>Some\<close> the return value 0
  with the header in host byte order, the payload (\<open>None\<close> for \<^verbatim>\<open>NULL\<close>) and the
  descriptor.\<close>

definition proto_recv_packet ::
  "endian \<Rightarrow> bool \<Rightarrow> read_event list \<Rightarrow>
   (byte MZW_PACKET \<times> byte list option \<times> read_event list) option" where
  "proto_recv_packet e malloc_ok fd =
     (case read_all fd sizeof_MZW_PACKET [] of
        None \<Rightarrow> None
      | Some (hb, fd1) \<Rightarrow>
          let net_pkt = header_of_bytes e hb;
              pkt = \<lparr> type = type net_pkt, size' = ntohs e (size' net_pkt),
                      param1 = param1 net_pkt, param2 = param2 net_pkt, param3 = param3 net_pkt,
                      timestamp_sec = ntohl e (timestamp_sec net_pkt),
                      timestamp_nsec = ntohl e (timestamp_nsec net_pkt) \<rparr>
          in if size' pkt > 0 then
               (if \<not> malloc_ok then None
                else case read_all fd1 (unat (size' pkt)) [] of
                       None \<Rightarrow> None
                     | Some (pb, fd2) \<Rightarrow> Some (pkt, Some pb, fd2))
             else Some (pkt, None, fd1))"

text \<open>The bytes that successive reads deliver before the first end of stream or the first
  failure other than an interruption; interrupted reads deliver nothing and are passed
  over.\<close>

fun stream_bytes :: "read_event list \<Rightarrow> byte list" where
  "stream_bytes [] = []"
| "stream_bytes (RBytes bs # rest) = (if bs = [] then [] else bs @ stream_bytes rest)"
| "stream_bytes (REof # rest) = []"
| "stream_bytes (RErr e # rest) = (if e = EINTR then stream_bytes rest else [])"

text \<open>A frame: a header and, when its size is not 0, a payload of that many bytes.\<close>

definition frame_ok :: "byte MZW_PACKET \<Rightarrow> byte list option \<Rightarrow> bool" where
  "frame_ok pkt data =
     (case data of None \<Rightarrow> size' pkt = 0 | Some bs \<Rightarrow> length bs = unat (size' pkt))"

text \<open>What \<^verbatim>\<open>proto_recv_packet\<close> makes of the bytes of a stream, stated on the bytes alone:
  the header from the first 16 bytes, and the payload from the bytes after them.\<close>

definition decode_header :: "endian \<Rightarrow> byte list \<Rightarrow> byte MZW_PACKET" where
  "decode_header e hb =
     \<lparr> type = hb ! 0, size' = ntohs e (val16 e (hb ! 2) (hb ! 3)),
       param1 = hb ! 4, param2 = hb ! 5, param3 = hb ! 6,
       timestamp_sec = ntohl e (val32 e (hb ! 8) (hb ! 9) (hb ! 10) (hb ! 11)),
       timestamp_nsec = ntohl e (val32 e (hb ! 12) (hb ! 13) (hb ! 14) (hb ! 15)) \<rparr>"

definition decode_frame ::
  "endian \<Rightarrow> bool \<Rightarrow> byte list \<Rightarrow> (byte MZW_PACKET \<times> byte list option) option" where
  "decode_frame e malloc_ok sb =
     (if length sb < 16 then None
      else let pkt = decode_header e (take 16 sb); n = unat (size' pkt)
           in if n = 0 then Some (pkt, None)
              else if malloc_ok \<and> 16 + n \<le> length sb then Some (pkt, Some (take n (drop 16 sb)))
              else None)"

definition received :: "(byte MZW_PACKET \<times> byte list option \<times> read_event list) option \<Rightarrow>
    (byte MZW_PACKET \<times> byte list option) option" where
  "received r = map_option (\<lambda>(pkt, data, fd). (pkt, data)) r"


text \<open>A frame, a descriptor whose first \<^verbatim>\<open>write\<close> takes three bytes only, the bytes of the
  frame on the wire when the clock reads (5, 7), and reads that deliver these bytes in two
  pieces with an interrupted read between them.\<close>

definition demo_pkt :: "byte MZW_PACKET" where
  "demo_pkt = \<lparr> type = 1, size' = 2, param1 = 65, param2 = 0, param3 = 0,
                timestamp_sec = 0, timestamp_nsec = 0 \<rparr>"

definition demo_out_fd :: out_fd where
  "demo_out_fd = \<lparr> written = [], write_results = [3] \<rparr>"

definition demo_wire :: "byte list" where
  "demo_wire = [1, 0, 0, 2, 65, 0, 0, 0, 0, 0, 0, 5, 0, 0, 0, 7, 104, 105]"

definition demo_reads :: "read_event list" where
  "demo_reads = [RBytes [1, 0, 0, 2, 65], RErr EINTR,
                 RBytes [0, 0, 0, 0, 0, 0, 5, 0, 0, 0, 7, 104, 105]]"

text \<open>The number of bytes of the frame that starts a stream: 16 as long as the header is not
  all there, and 16 plus the size that the header announces otherwise. The frame is cut short
  when the stream delivers fewer bytes than that before its first end of stream or failure
  other than an interruption.\<close>

definition frame_length :: "endian \<Rightarrow> byte list \<Rightarrow> nat" where
  "frame_length e sb =
     (if length sb < 16 then 16 else 16 + unat (size' (decode_header e (take 16 sb))))"

definition cut_short :: "endian \<Rightarrow> byte list \<Rightarrow> bool" where
  "cut_short e sb = (length sb < frame_length e sb)"

definition announces_payload :: "endian \<Rightarrow> byte list \<Rightarrow> bool" where
  "announces_payload e sb = (16 \<le> length sb \<and> size' (decode_header e (take 16 sb)) > 0)"

text \<open>A header in network byte order: the 16 bytes with the size and the timestamps most
  significant byte first, so that the low byte of the size is at offset 3, after its high
  byte at offset 2.\<close>

definition wire_header :: "byte \<times> byte \<Rightarrow> byte MZW_PACKET \<Rightarrow> byte list" where
  "wire_header pad p =
     [type p, fst pad, ucast (drop_bit 8 (size' p)), ucast (size' p),
      param1 p, param2 p, param3 p, snd pad,
      ucast (drop_bit 24 (timestamp_sec p)), ucast (drop_bit 16 (timestamp_sec p)),
      ucast (drop_bit 8 (timestamp_sec p)), ucast (timestamp_sec p),
      ucast (drop_bit 24 (timestamp_nsec p)), ucast (drop_bit 16 (timestamp_nsec p)),
      ucast (drop_bit 8 (timestamp_nsec p)), ucast (timestamp_nsec p)]"

text \<open>The header copy that \<^verbatim>\<open>proto_send_packet\<close> writes: size and timestamps in network
  byte order.\<close>

definition net_copy :: "endian \<Rightarrow> byte MZW_PACKET \<Rightarrow> byte MZW_PACKET" where
  "net_copy e p = p\<lparr> size' := htons e (size' p), timestamp_sec := htonl e (timestamp_sec p),
                       timestamp_nsec := htonl e (timestamp_nsec p) \<rparr>"


section \<open>Players (player.c)\<close>

text \<open>Modelled from the spec: protocol.h is not among the sources; the packet types are those
  of the frame table of the specification.\<close>

datatype MZW_PACKET_TYPE =
    MZW_LOGIN_PKT | MZW_MOVE_PKT | MZW_TURN_PKT | MZW_FIRE_PKT | MZW_REFRESH_PKT | MZW_SEND_PKT
  | MZW_READY_PKT | MZW_INUSE_PKT | MZW_CLEAR_PKT | MZW_SHOW_PKT | MZW_ALERT_PKT
  | MZW_SCORE_PKT | MZW_CHAT_PKT

type_synonym packet = "MZW_PACKET_TYPE MZW_PACKET"

text \<open>A packet as the C code writes it with designated initialisers: the fields that are not
  named are zero.\<close>

definition new_packet :: "MZW_PACKET_TYPE \<Rightarrow> packet" where
  "new_packet ty = \<lparr> type = ty, size' = 0, param1 = 0, param2 = 0, param3 = 0,
                      timestamp_sec = 0, timestamp_nsec = 0 \<rparr>"

definition MAX_PLAYERS :: nat where
  "MAX_PLAYERS = 256"

text \<open>Modelled from the spec: maze.h is not among the sources; the specification gives 8 as
  the typical depth of a view.\<close>

definition VIEW_DEPTH :: nat where
  "VIEW_DEPTH = 8"

text \<open>\<^verbatim>\<open>struct player\<close>, without its mutex. A player is referred to by its address.\<close>

type_synonym ptr = nat

record PLAYER =
  ref_count :: int
  client_fd :: int
  avatar :: OBJECT
  name :: string
  row :: int
  col :: int
  dir :: DIRECTION
  score :: int
  laser_hit :: bool
  thread_id :: nat
  last_view :: VIEW
  view_valid_depth :: int

text \<open>The object that \<^verbatim>\<open>calloc\<close> returns: all fields zero.\<close>

definition zero_player :: PLAYER where
  "zero_player =
     \<lparr> ref_count = 0, client_fd = 0, avatar = CHR 0x00, name = [], row = 0, col = 0,
       dir = NORTH, score = 0, laser_hit = False, thread_id = 0,
       last_view = replicate VIEW_DEPTH (replicate VIEW_WIDTH (CHR 0x00)),
       view_valid_depth = 0 \<rparr>"

text \<open>
  The state of the server process: the globals of maze.c, player.c, client_registry.c and
  main.c, and what the process has done to the outside.
  \<^item> \<open>rand_seq\<close> are the values that the successive calls of \<^verbatim>\<open>rand\<close> return, \<open>rand_calls\<close>
    the number of calls made so far;
  \<^item> \<open>heap\<close> holds the allocated players, \<open>fresh\<close> the addresses that the coming calls of
    \<^verbatim>\<open>calloc\<close> return (when it is empty, \<^verbatim>\<open>calloc\<close> returns \<^verbatim>\<open>NULL\<close>);
  \<^item> \<open>player_map\<close> is the table of player.c, indexed by the avatar byte, \<open>None\<close> for
    \<^verbatim>\<open>NULL\<close>;
  \<^item> \<open>sent\<close> lists the calls of \<^verbatim>\<open>proto_send_packet\<close>, oldest first, each with its
    descriptor, header and payload; its return value is ignored by every caller in
    player.c and server.c;
  \<^item> \<open>signals\<close> lists the threads to which \<^verbatim>\<open>pthread_kill\<close> has sent \<^verbatim>\<open>SIGUSR1\<close>;
  \<^item> \<open>uninit_view\<close> and \<open>uninit_buf\<close> are the contents of the local arrays
    \<^verbatim>\<open>view\<close> of \<^verbatim>\<open>player_update_view\<close> and \<^verbatim>\<open>buf\<close> of \<^verbatim>\<open>player_send_chat\<close> before
    anything is written to them;
  \<^item> \<open>registry\<close> is the client registry, \<open>None\<close> once it is freed; \<open>listenfd\<close> the
    listening socket; \<open>shut_down\<close> and \<open>closed\<close> the descriptors on which
    \<^verbatim>\<open>shutdown\<close> and \<^verbatim>\<open>close\<close> have been called; \<open>calls\<close> the trace of the calls that
    \<^verbatim>\<open>terminate\<close> makes;
  \<^item> \<open>map_log\<close> is the trace of the table lock \<^verbatim>\<open>map_mutex\<close>: the calls of
    \<^verbatim>\<open>pthread_mutex_lock\<close> and \<^verbatim>\<open>pthread_mutex_unlock\<close> on it, and the test and the
    assignment of a table entry by \<^verbatim>\<open>player_login\<close>, \<^verbatim>\<open>player_logout\<close> and
    \<^verbatim>\<open>player_get\<close>, each with its index, in the order in which they are executed.
  A function that returns \<open>None\<close> has run into undefined behaviour of the C code: the use
  of a player that is not allocated, a maze access out of bounds, a division by zero.
\<close>

datatype call =
    Close int | Creg_shutdown_all | Creg_wait_for_empty | Creg_fini | Player_fini | Maze_fini
  | Exit int

datatype map_event = Map_lock | Map_unlock | Map_test nat | Map_store nat "ptr option"

record server =
  maze_st :: maze_state
  rand_seq :: "nat \<Rightarrow> nat"
  rand_calls :: nat
  heap :: "ptr \<Rightarrow> PLAYER option"
  fresh :: "ptr list"
  player_map :: "nat \<Rightarrow> ptr option"
  sent :: "(int \<times> packet \<times> string option) list"
  signals :: "nat list"
  uninit_view :: VIEW
  uninit_buf :: string
  registry :: "client_registry option"
  listenfd :: int
  shut_down :: "int list"
  closed :: "int list"
  calls :: "call list"
  map_log :: "map_event list"

definition on_map :: "server \<Rightarrow> map_event list \<Rightarrow> server" where
  "on_map s evs = s\<lparr> map_log := map_log s @ evs \<rparr>"

text \<open>\<^verbatim>\<open>maze_remove_player\<close> reads \<^verbatim>\<open>maze[row][col]\<close> without a bounds test.\<close>

definition maze_remove_player :: "maze_state \<Rightarrow> OBJECT \<Rightarrow> int \<Rightarrow> int \<Rightarrow> maze_state option" where
  "maze_remove_player m a r c =
     (if out_of_bounds m r c then None
      else if maze_at m r c = a then Some (maze_put m r c EMPTY)
      else Some m)"

text \<open>\<^verbatim>\<open>maze_set_player_random\<close>: at most \<^verbatim>\<open>max_attempts\<close> attempts, each with two calls of
  \<^verbatim>\<open>rand\<close>. The result is the position found (\<open>None\<close> for the return value -1), the maze
  and the number of calls of \<^verbatim>\<open>rand\<close> made. The remainder of a value of \<^verbatim>\<open>rand\<close>, which
  is not negative, by a dimension is taken as C takes it; a dimension 0 is a division by
  zero.\<close>

definition max_attempts :: nat where
  "max_attempts = 1000"

function maze_set_player_random_loop ::
  "maze_state \<Rightarrow> (nat \<Rightarrow> nat) \<Rightarrow> nat \<Rightarrow> OBJECT \<Rightarrow> nat \<Rightarrow>
   ((int \<times> int) option \<times> maze_state \<times> nat) option" where
  "maze_set_player_random_loop m rnd k a i =
     (if i < max_attempts then
        (if maze_rows m = 0 \<or> maze_cols m = 0 then None
         else
           let r = int (rnd k) mod \<bar>maze_rows m\<bar>;
               c = int (rnd (k + 1)) mod \<bar>maze_cols m\<bar>
           in case maze_set_player m a r c of
                Some m' \<Rightarrow> Some (Some (r, c), m', k + 2)
              | None \<Rightarrow> maze_set_player_random_loop m rnd (k + 2) a (i + 1))
      else Some (None, m, k))"
  by pat_completeness auto
termination
  by (relation "measure (\<lambda>(m, rnd, k, a, i). max_attempts - i)") auto

declare maze_set_player_random_loop.simps [simp del]

definition maze_set_player_random ::
  "maze_state \<Rightarrow> (nat \<Rightarrow> nat) \<Rightarrow> nat \<Rightarrow> OBJECT \<Rightarrow>
   ((int \<times> int) option \<times> maze_state \<times> nat) option" where
  "maze_set_player_random m rnd k a = maze_set_player_random_loop m rnd k a 0"

text \<open>The loop \<^verbatim>\<open>for (i = 0; i < MAX_PLAYERS; i++) if (player_map[i]) ...\<close>, with what is
  done to \<^verbatim>\<open>player_map[i]\<close> as an argument.\<close>

function for_each_player ::
  "(ptr \<Rightarrow> server \<Rightarrow> server option) \<Rightarrow> nat \<Rightarrow> server \<Rightarrow> server option" where
  "for_each_player body i s =
     (if i < MAX_PLAYERS then
        (case player_map s i of
           None \<Rightarrow> for_each_player body (i + 1) s
         | Some q \<Rightarrow>
             (case body q s of
                None \<Rightarrow> None
              | Some s' \<Rightarrow> for_each_player body (i + 1) s'))
      else Some s)"
  by pat_completeness auto
termination
  by (relation "measure (\<lambda>(body, i, s). MAX_PLAYERS - i)") auto

declare for_each_player.simps [simp del]

text \<open>\<^verbatim>\<open>proto_send_packet(fd, pkt, data)\<close> as the player module sees it, and
  \<^verbatim>\<open>player_send_packet\<close>.\<close>

definition send_on :: "server \<Rightarrow> int \<Rightarrow> packet \<Rightarrow> string option \<Rightarrow> server" where
  "send_on s fd pkt data = s\<lparr> sent := sent s @ [(fd, pkt, data)] \<rparr>"

definition player_send_packet :: "server \<Rightarrow> ptr \<Rightarrow> packet \<Rightarrow> string option \<Rightarrow> server option" where
  "player_send_packet s p pkt data =
     (case heap s p of
        None \<Rightarrow> None
      | Some pl \<Rightarrow> Some (send_on s (client_fd pl) pkt data))"

text \<open>\<^verbatim>\<open>player_ref\<close>, \<^verbatim>\<open>player_unref\<close>, \<^verbatim>\<open>player_get\<close>.\<close>

definition player_ref :: "server \<Rightarrow> ptr \<Rightarrow> server option" where
  "player_ref s p =
     (case heap s p of
        None \<Rightarrow> None
      | Some pl \<Rightarrow> Some (s\<lparr> heap := (heap s)(p \<mapsto> pl\<lparr> ref_count := ref_count pl + 1 \<rparr>) \<rparr>))"

definition player_unref :: "server \<Rightarrow> ptr \<Rightarrow> server option" where
  "player_unref s p =
     (case heap s p of
        None \<Rightarrow> None
      | Some pl \<Rightarrow>
          if ref_count pl - 1 = 0 then Some (s\<lparr> heap := (heap s)(p := None) \<rparr>)
          else Some (s\<lparr> heap := (heap s)(p \<mapsto> pl\<lparr> ref_count := ref_count pl - 1 \<rparr>) \<rparr>))"

definition player_get :: "server \<Rightarrow> OBJECT \<Rightarrow> (ptr option \<times> server) option" where
  "player_get s a =
     (let s0 = on_map s [Map_lock, Map_test (of_char a)]
      in case player_map s0 (of_char a) of
           None \<Rightarrow> Some (None, on_map s0 [Map_unlock])
         | Some p \<Rightarrow> map_option (\<lambda>s'. (Some p, on_map s' [Map_unlock])) (player_ref s0 p))"

text \<open>\<^verbatim>\<open>player_init\<close> clears the table; \<^verbatim>\<open>player_fini\<close>, with the table locked, drops one
  reference of every player in it (and leaves the table as it is).\<close>

definition player_init :: "server \<Rightarrow> server" where
  "player_init s = s\<lparr> player_map := (\<lambda>i. None) \<rparr>"

definition player_fini :: "server \<Rightarrow> server option" where
  "player_fini s =
     map_option (\<lambda>s'. on_map s' [Map_unlock])
       (for_each_player (\<lambda>q s'. player_unref s' q) 0 (on_map s [Map_lock]))"

text \<open>\<^verbatim>\<open>strdup\<close> of the bytes of a buffer: the bytes before the first zero byte. Without a
  zero byte in the buffer it reads past its end (\<open>None\<close>).\<close>

definition strdup :: "string \<Rightarrow> string option" where
  "strdup buf =
     (if CHR 0x00 \<in> set buf then Some (takeWhile (\<lambda>ch. ch \<noteq> CHR 0x00) buf) else None)"

text \<open>\<^verbatim>\<open>player_login\<close>. The name is the buffer that the argument points to, \<open>None\<close> for a
  \<^verbatim>\<open>NULL\<close> pointer; \<open>tid\<close> is the calling thread. The result is the player (\<open>None\<close>
  for \<^verbatim>\<open>NULL\<close>) and the state. The table is locked by the first statement and unlocked
  before each \<^verbatim>\<open>return\<close>.\<close>

definition player_login ::
  "server \<Rightarrow> int \<Rightarrow> OBJECT \<Rightarrow> string option \<Rightarrow> nat \<Rightarrow> (ptr option \<times> server) option" where
  "player_login s0 clientfd a nm tid =
     (let s = on_map s0 [Map_lock, Map_test (of_char a)]
      in if player_map s (of_char a) \<noteq> None then Some (None, on_map s [Map_unlock])
         else case fresh s of
           [] \<Rightarrow> Some (None, on_map s [Map_unlock])
         | p # ps \<Rightarrow>
             (case strdup (case nm of None \<Rightarrow> ''Anonymous'' @ [CHR 0x00] | Some n \<Rightarrow> n) of
                None \<Rightarrow> None
              | Some nm' \<Rightarrow>
                  let pl = zero_player\<lparr> ref_count := 1, client_fd := clientfd, avatar := a,
                             name := nm', dir := NORTH, view_valid_depth := -1 \<rparr>
                  in case maze_set_player_random (maze_st s) (rand_seq s) (rand_calls s) a of
                       None \<Rightarrow> None
                     | Some (None, m', k') \<Rightarrow>
                         Some (None,
                               on_map (s\<lparr> maze_st := m', rand_calls := k', fresh := ps \<rparr>)
                                 [Map_unlock])
                     | Some (Some (r, c), m', k') \<Rightarrow>
                         Some (Some p,
                               on_map
                                 (s\<lparr> maze_st := m', rand_calls := k', fresh := ps,
                                     heap := (heap s)(p \<mapsto> pl\<lparr> row := r, col := c,
                                                                 thread_id := tid \<rparr>),
                                     player_map := (player_map s)(of_char a \<mapsto> p) \<rparr>)
                                 [Map_store (of_char a) (Some p), Map_unlock])))"

definition player_logout :: "server \<Rightarrow> ptr \<Rightarrow> server option" where
  "player_logout s p =
     (case heap s p of
        None \<Rightarrow> None
      | Some pl \<Rightarrow>
          let s0 = on_map s [Map_lock, Map_test (of_char (avatar pl))];
              s1 = (if player_map s0 (of_char (avatar pl)) = Some p
                    then on_map (s0\<lparr> player_map := (player_map s0)(of_char (avatar pl) := None) \<rparr>)
                           [Map_store (of_char (avatar pl)) None, Map_unlock]
                    else on_map s0 [Map_unlock])
          in case maze_remove_player (maze_st s1) (avatar pl) (row pl) (col pl) of
               None \<Rightarrow> None
             | Some m' \<Rightarrow>
                 (case player_send_packet (s1\<lparr> maze_st := m' \<rparr>) p
                         ((new_packet MZW_SCORE_PKT)\<lparr> param1 := of_char (avatar pl), param2 := -1 \<rparr>)
                         None of
                    None \<Rightarrow> None
                  | Some s2 \<Rightarrow> player_unref s2 p))"

definition player_invalidate_view :: "server \<Rightarrow> ptr \<Rightarrow> server option" where
  "player_invalidate_view s p =
     (case heap s p of
        None \<Rightarrow> None
      | Some pl \<Rightarrow> Some (s\<lparr> heap := (heap s)(p \<mapsto> pl\<lparr> view_valid_depth := -1 \<rparr>) \<rparr>))"

text \<open>\<^verbatim>\<open>player_update_view\<close>. The cells of a view of the given depth in the order of the two
  loops, the \<^verbatim>\<open>SHOW\<close> packet of a cell, and the function: every packet goes to the player's
  own descriptor.\<close>

definition view_cells :: "nat \<Rightarrow> (nat \<times> nat) list" where
  "view_cells depth = concat (map (\<lambda>d. map (\<lambda>x. (d, x)) [0..<VIEW_WIDTH]) [0..<depth])"

definition show_packet :: "VIEW \<Rightarrow> nat \<times> nat \<Rightarrow> packet" where
  "show_packet view cell =
     (new_packet MZW_SHOW_PKT)\<lparr> param1 := of_char (view ! fst cell ! snd cell),
                                 param2 := of_nat (snd cell), param3 := of_nat (fst cell) \<rparr>"

definition player_update_view :: "server \<Rightarrow> ptr \<Rightarrow> server option" where
  "player_update_view s p =
     (case heap s p of
        None \<Rightarrow> None
      | Some pl \<Rightarrow>
          (case maze_get_view (maze_st s) (uninit_view s) (row pl) (col pl) (dir pl)
                  (int VIEW_DEPTH) of
             None \<Rightarrow> None
           | Some (view, depth) \<Rightarrow>
               let pkts =
                     (if view_valid_depth pl < 0
                      then new_packet MZW_CLEAR_PKT # map (show_packet view) (view_cells (nat depth))
                      else map (show_packet view)
                             (filter (\<lambda>cell. view ! fst cell ! snd cell
                                                \<noteq> last_view pl ! fst cell ! snd cell)
                                (view_cells (nat depth))))
               in Some (s\<lparr> sent := sent s @ map (\<lambda>pkt. (client_fd pl, pkt, None)) pkts,
                            heap := (heap s)(p \<mapsto> pl\<lparr> last_view := view,
                                                        view_valid_depth := depth \<rparr>) \<rparr>)))"

definition update_all_views :: "server \<Rightarrow> server option" where
  "update_all_views s = for_each_player (\<lambda>q s'. player_update_view s' q) 0 s"

text \<open>\<^verbatim>\<open>player_move\<close>: the result is the return value and the state.\<close>

definition player_move :: "server \<Rightarrow> ptr \<Rightarrow> int \<Rightarrow> (int \<times> server) option" where
  "player_move s p sign =
     (case heap s p of
        None \<Rightarrow> None
      | Some pl \<Rightarrow>
          let move_dir = (if sign = -1 then REVERSE (dir pl) else dir pl)
          in case maze_move (maze_st s) (row pl) (col pl) move_dir of
               None \<Rightarrow> map_option (\<lambda>s'. (-1, s')) (update_all_views s)
             | Some m' \<Rightarrow>
                 let pl' = (case move_dir of
                              NORTH \<Rightarrow> pl\<lparr> row := row pl - 1 \<rparr>
                            | SOUTH \<Rightarrow> pl\<lparr> row := row pl + 1 \<rparr>
                            | WEST \<Rightarrow> pl\<lparr> col := col pl - 1 \<rparr>
                            | EAST \<Rightarrow> pl\<lparr> col := col pl + 1 \<rparr>)
                 in map_option (\<lambda>s'. (0, s'))
                      (update_all_views (s\<lparr> maze_st := m', heap := (heap s)(p \<mapsto> pl') \<rparr>)))"

definition player_rotate :: "server \<Rightarrow> ptr \<Rightarrow> int \<Rightarrow> server option" where
  "player_rotate s p d =
     (case heap s p of
        None \<Rightarrow> None
      | Some pl \<Rightarrow>
          player_update_view
            (s\<lparr> heap := (heap s)(p \<mapsto> pl\<lparr> dir := (if d = 1 then TURN_LEFT (dir pl)
                                                         else TURN_RIGHT (dir pl)),
                                               view_valid_depth := -1 \<rparr>) \<rparr>) p)"

text \<open>\<^verbatim>\<open>player_reset\<close>. When \<^verbatim>\<open>maze_set_player_random\<close> fails the function returns at once:
  the assignment \<^verbatim>\<open>player->score = 0\<close> comes after that return in the source.\<close>

definition send_scores_to :: "ptr \<Rightarrow> ptr \<Rightarrow> server \<Rightarrow> server option" where
  "send_scores_to p q s =
     (if q \<noteq> p then
        (case heap s q of
           None \<Rightarrow> None
         | Some ql \<Rightarrow>
             player_send_packet s p
               ((new_packet MZW_SCORE_PKT)\<lparr> param1 := of_char (avatar ql),
                                            param2 := word_of_int (score ql) \<rparr>) None)
      else Some s)"

definition player_reset :: "server \<Rightarrow> ptr \<Rightarrow> server option" where
  "player_reset s p =
     (case heap s p of
        None \<Rightarrow> None
      | Some pl \<Rightarrow>
          (case maze_remove_player (maze_st s) (avatar pl) (row pl) (col pl) of
             None \<Rightarrow> None
           | Some m1 \<Rightarrow>
               (case maze_set_player_random m1 (rand_seq s) (rand_calls s) (avatar pl) of
                  None \<Rightarrow> None
                | Some (None, m2, k2) \<Rightarrow> Some (s\<lparr> maze_st := m2, rand_calls := k2 \<rparr>)
                | Some (Some (r, c), m2, k2) \<Rightarrow>
                    let s1 = s\<lparr> maze_st := m2, rand_calls := k2,
                                heap := (heap s)(p \<mapsto> pl\<lparr> row := r, col := c, score := 0 \<rparr>) \<rparr>
                    in case for_each_player (send_scores_to p) 0 s1 of
                         None \<Rightarrow> None
                       | Some s2 \<Rightarrow>
                           (case for_each_player
                                   (\<lambda>q s'. player_send_packet s' q
                                      ((new_packet MZW_SCORE_PKT)\<lparr> param1 := of_char (avatar pl),
                                                                   param2 := 0 \<rparr>) None)
                                   0 s2 of
                              None \<Rightarrow> None
                            | Some s3 \<Rightarrow> update_all_views s3))))"

text \<open>\<^verbatim>\<open>player_fire_laser\<close>.\<close>

definition player_fire_laser :: "server \<Rightarrow> ptr \<Rightarrow> server option" where
  "player_fire_laser s p =
     (case heap s p of
        None \<Rightarrow> None
      | Some pl \<Rightarrow>
          let target = fst (maze_find_target (maze_st s) (row pl) (col pl) (dir pl))
          in if \<not> IS_AVATAR target then Some s
             else case player_get s target of
                    None \<Rightarrow> None
                  | Some (None, s1) \<Rightarrow> Some s1
                  | Some (Some victim, s1) \<Rightarrow>
                      (case heap s1 victim of
                         None \<Rightarrow> None
                       | Some vl \<Rightarrow>
                           let s2 = s1\<lparr> heap := (heap s1)(victim \<mapsto> vl\<lparr> laser_hit := True \<rparr>),
                                        signals := signals s1 @ [thread_id vl] \<rparr>
                           in case heap s2 p of
                                None \<Rightarrow> None
                              | Some pl2 \<Rightarrow>
                                  let s3 = s2\<lparr> heap := (heap s2)(p \<mapsto> pl2\<lparr> score := score pl2 + 1 \<rparr>) \<rparr>
                                  in case for_each_player
                                            (\<lambda>q s'. player_send_packet s' q
                                               ((new_packet MZW_SCORE_PKT)
                                                  \<lparr> param1 := of_char (avatar pl2),
                                                    param2 := word_of_int (score pl2 + 1) \<rparr>) None)
                                            0 s3 of
                                       None \<Rightarrow> None
                                     | Some s4 \<Rightarrow> player_unref s4 victim))"

text \<open>\<^verbatim>\<open>player_check_for_laser_hit\<close>; the three seconds of sleep leave no trace in the
  state.\<close>

definition player_check_for_laser_hit :: "server \<Rightarrow> ptr \<Rightarrow> server option" where
  "player_check_for_laser_hit s p =
     (case heap s p of
        None \<Rightarrow> None
      | Some pl \<Rightarrow>
          if \<not> laser_hit pl then Some s
          else
            let s1 = s\<lparr> heap := (heap s)(p \<mapsto> pl\<lparr> laser_hit := False \<rparr>) \<rparr>
            in case maze_remove_player (maze_st s1) (avatar pl) (row pl) (col pl) of
                 None \<Rightarrow> None
               | Some m' \<Rightarrow>
                   (case update_all_views (s1\<lparr> maze_st := m' \<rparr>) of
                      None \<Rightarrow> None
                    | Some s2 \<Rightarrow>
                        (case player_send_packet s2 p (new_packet MZW_ALERT_PKT) None of
                           None \<Rightarrow> None
                         | Some s3 \<Rightarrow> player_reset s3 p)))"

text \<open>\<^verbatim>\<open>player_send_chat\<close>. \<^verbatim>\<open>snprintf\<close> formats the name (up to its terminator), the avatar
  between brackets, a space, and at most \<^verbatim>\<open>len\<close> bytes of the message (up to a zero byte
  if there is one); it stores at most 1023 bytes of that and a terminator in \<^verbatim>\<open>buf\<close>, and
  returns the length of the whole formatted text. That \<^verbatim>\<open>int\<close> is assigned to the 16-bit
  field \<^verbatim>\<open>size\<close>; \<open>chat_frame\<close> is the packet and the buffer after these two statements.
  Every player is sent the packet with \<^verbatim>\<open>buf\<close> as payload.\<close>

definition chat_text :: "PLAYER \<Rightarrow> string \<Rightarrow> nat \<Rightarrow> string" where
  "chat_text pl msg len =
     takeWhile (\<lambda>ch. ch \<noteq> CHR 0x00) (name pl) @ ''['' @ [avatar pl] @ ''] '' @
     takeWhile (\<lambda>ch. ch \<noteq> CHR 0x00) (take len msg)"

definition snprintf :: "string \<Rightarrow> nat \<Rightarrow> string \<Rightarrow> string \<times> int" where
  "snprintf buf n txt =
     (if n = 0 then (buf, int (length txt))
      else ((take (n - 1) txt @ [CHR 0x00]) @ drop (length (take (n - 1) txt) + 1) buf,
            int (length txt)))"

definition chat_frame :: "string \<Rightarrow> PLAYER \<Rightarrow> string \<Rightarrow> nat \<Rightarrow> packet \<times> string" where
  "chat_frame buf0 pl msg len =
     (case snprintf buf0 1024 (chat_text pl msg len) of
        (buf, n) \<Rightarrow> ((new_packet MZW_CHAT_PKT)\<lparr> size' := word_of_int n \<rparr>, buf))"

definition player_send_chat :: "server \<Rightarrow> ptr \<Rightarrow> string \<Rightarrow> nat \<Rightarrow> server option" where
  "player_send_chat s p msg len =
     (case heap s p of
        None \<Rightarrow> None
      | Some pl \<Rightarrow>
          (case chat_frame (uninit_buf s) pl msg len of
             (pkt, buf) \<Rightarrow>
               for_each_player (\<lambda>q s'. player_send_packet s' q pkt (Some buf)) 0 s))"


section \<open>The client service routine (server.c) and the shutdown (main.c)\<close>

text \<open>The locals of \<^verbatim>\<open>mzw_client_service\<close> and the thread-local \<^verbatim>\<open>this_player\<close> of the
  thread that runs it.\<close>

record service =
  client :: int
  tid :: nat
  player :: "ptr option"
  logged_in :: bool
  this_player :: "ptr option"

definition check_hit :: "server \<Rightarrow> service \<Rightarrow> server option" where
  "check_hit s sv =
     (case this_player sv of
        None \<Rightarrow> Some s
      | Some p \<Rightarrow> player_check_for_laser_hit s p)"

text \<open>The \<^verbatim>\<open>switch\<close> on the packet type. A \<^verbatim>\<open>break\<close> leaves the switch, not the loop: the
  loop goes on after every case.\<close>

definition dispatch ::
  "server \<Rightarrow> service \<Rightarrow> packet \<Rightarrow> string option \<Rightarrow> (server \<times> service) option" where
  "dispatch s sv pkt data =
     (case type pkt of
        MZW_LOGIN_PKT \<Rightarrow>
          if logged_in sv then Some (s, sv)
          else
            (case player_login s (client sv) (char_of (unat (param1 pkt))) data (tid sv) of
               None \<Rightarrow> None
             | Some (None, s1) \<Rightarrow>
                 Some (send_on s1 (client sv) (new_packet MZW_INUSE_PKT) None,
                       sv\<lparr> player := None, this_player := None \<rparr>)
             | Some (Some p, s1) \<Rightarrow>
                 (case player_reset (send_on s1 (client sv) (new_packet MZW_READY_PKT) None) p of
                    None \<Rightarrow> None
                  | Some s2 \<Rightarrow>
                      Some (s2, sv\<lparr> player := Some p, this_player := Some p,
                                    logged_in := True \<rparr>)))
      | MZW_MOVE_PKT \<Rightarrow>
          if logged_in sv then
            (case player sv of
               None \<Rightarrow> None
             | Some p \<Rightarrow> map_option (\<lambda>r. (snd r, sv)) (player_move s p (sint (param1 pkt))))
          else Some (s, sv)
      | MZW_TURN_PKT \<Rightarrow>
          if logged_in sv then
            (case player sv of
               None \<Rightarrow> None
             | Some p \<Rightarrow> map_option (\<lambda>s'. (s', sv)) (player_rotate s p (sint (param1 pkt))))
          else Some (s, sv)
      | MZW_FIRE_PKT \<Rightarrow>
          if logged_in sv then
            (case player sv of
               None \<Rightarrow> None
             | Some p \<Rightarrow> map_option (\<lambda>s'. (s', sv)) (player_fire_laser s p))
          else Some (s, sv)
      | MZW_REFRESH_PKT \<Rightarrow>
          if logged_in sv then
            (case player sv of
               None \<Rightarrow> None
             | Some p \<Rightarrow>
                 (case player_invalidate_view s p of
                    None \<Rightarrow> None
                  | Some s1 \<Rightarrow> map_option (\<lambda>s'. (s', sv)) (player_update_view s1 p)))
          else Some (s, sv)
      | MZW_SEND_PKT \<Rightarrow>
          if logged_in sv \<and> data \<noteq> None then
            (case player sv of
               None \<Rightarrow> None
             | Some p \<Rightarrow>
                 map_option (\<lambda>s'. (s', sv)) (player_send_chat s p (the data) (unat (size' pkt))))
          else Some (s, sv)
      | _ \<Rightarrow> Some (s, sv))"

text \<open>One turn of the service loop for a packet that \<^verbatim>\<open>proto_recv_packet\<close> has returned:
  the check for a hit before the receive, the check after it, the switch. The loop itself
  runs over the packets that arrive on the connection; after the last of them
  \<^verbatim>\<open>proto_recv_packet\<close> fails and the loop is left.\<close>

definition service_turn ::
  "server \<Rightarrow> service \<Rightarrow> packet \<times> string option \<Rightarrow> (server \<times> service) option" where
  "service_turn s sv fr =
     (case check_hit s sv of
        None \<Rightarrow> None
      | Some s1 \<Rightarrow>
          (case check_hit s1 sv of
             None \<Rightarrow> None
           | Some s2 \<Rightarrow> dispatch s2 sv (fst fr) (snd fr)))"

fun service_loop ::
  "server \<Rightarrow> service \<Rightarrow> (packet \<times> string option) list \<Rightarrow> (server \<times> service) option" where
  "service_loop s sv [] = map_option (\<lambda>s'. (s', sv)) (check_hit s sv)"
| "service_loop s sv (fr # frs) =
     (case service_turn s sv fr of
        None \<Rightarrow> None
      | Some (s', sv') \<Rightarrow> service_loop s' sv' frs)"

text \<open>What the thread does after the loop: it logs its player out, if it has one, removes
  the descriptor from the registry and closes it. Then the whole routine, for the packets
  that arrive on the connection.\<close>

definition service_cleanup :: "server \<Rightarrow> int \<Rightarrow> ptr option \<Rightarrow> server option" where
  "service_cleanup s fd pl =
     (case (case pl of None \<Rightarrow> Some s | Some p \<Rightarrow> player_logout s p) of
        None \<Rightarrow> None
      | Some s2 \<Rightarrow>
          (case registry s2 of
             None \<Rightarrow> None
           | Some cr2 \<Rightarrow>
               Some (s2\<lparr> registry := Some (creg_unregister cr2 fd),
                         closed := closed s2 @ [fd] \<rparr>)))"

definition mzw_client_service ::
  "server \<Rightarrow> int \<Rightarrow> nat \<Rightarrow> (packet \<times> string option) list \<Rightarrow> server option" where
  "mzw_client_service s fd t frs =
     (case registry s of
        None \<Rightarrow> None
      | Some cr \<Rightarrow>
          (case service_loop (s\<lparr> registry := Some (creg_register cr fd) \<rparr>)
                  \<lparr> client = fd, tid = t, player = None, logged_in = False,
                    this_player = None \<rparr> frs of
             None \<Rightarrow> None
           | Some (s1, sv) \<Rightarrow> service_cleanup s1 fd (player sv)))"

text \<open>\<^verbatim>\<open>maze_fini\<close> frees the rows and sets \<^verbatim>\<open>maze\<close> to \<^verbatim>\<open>NULL\<close>.\<close>

definition maze_fini :: "maze_state \<Rightarrow> maze_state" where
  "maze_fini m = m\<lparr> maze := [] \<rparr>"

text \<open>How a call of \<^verbatim>\<open>terminate\<close> ends: it reaches \<^verbatim>\<open>exit\<close>, it stays blocked in
  \<^verbatim>\<open>sem_wait\<close>, or it runs into undefined behaviour. The same three for the wait alone,
  \<open>Finished\<close> then being its return.\<close>

datatype outcome = Finished | Blocked | Undefined

text \<open>The caller blocked in the \<^verbatim>\<open>sem_wait\<close> of \<^verbatim>\<open>creg_wait_for_empty\<close>. Only the service
  threads can release it. \<open>exits\<close> lists the service threads that leave their loop while
  the caller waits, in the order in which they do, each with its descriptor and its
  player; each of them runs \<open>service_cleanup\<close>, of which \<^verbatim>\<open>creg_unregister\<close> posts the
  semaphore when the count has come down to 0. The caller returns as soon as there is a
  post, and stays blocked when the threads of the list have left without one.\<close>

fun sem_wait_empty :: "server \<Rightarrow> (int \<times> ptr option) list \<Rightarrow> outcome \<times> server" where
  "sem_wait_empty s [] =
     (case registry s of
        None \<Rightarrow> (Undefined, s)
      | Some cr \<Rightarrow>
          if empty cr > 0 then (Finished, s\<lparr> registry := Some (cr\<lparr> empty := empty cr - 1 \<rparr>) \<rparr>)
          else (Blocked, s))"
| "sem_wait_empty s ((fd, pl) # exits) =
     (case registry s of
        None \<Rightarrow> (Undefined, s)
      | Some cr \<Rightarrow>
          if empty cr > 0 then (Finished, s\<lparr> registry := Some (cr\<lparr> empty := empty cr - 1 \<rparr>) \<rparr>)
          else (case service_cleanup s fd pl of
                  None \<Rightarrow> (Undefined, s)
                | Some s' \<Rightarrow> sem_wait_empty s' exits))"

text \<open>\<^verbatim>\<open>terminate\<close>, statement by statement; each call is added to the trace when it is
  made. First the statements up to \<^verbatim>\<open>creg_wait_for_empty\<close>, which returns at once when the
  count is 0 or the semaphore has a post, and waits otherwise; then, when that call has
  returned, the rest. \<^verbatim>\<open>exit\<close> ends the process.\<close>

definition stop_clients :: "server \<Rightarrow> (int \<times> ptr option) list \<Rightarrow> outcome \<times> server" where
  "stop_clients s exits =
     (let s1 = (if listenfd s > 0
                then s\<lparr> closed := closed s @ [listenfd s],
                        calls := calls s @ [Close (listenfd s)] \<rparr>
                else s)
      in case registry s1 of
           None \<Rightarrow> (Undefined, s1)
         | Some cr \<Rightarrow>
             let s2 = s1\<lparr> shut_down := shut_down s1 @ creg_shutdown_all cr,
                          calls := calls s1 @ [Creg_shutdown_all] \<rparr>;
                 s3 = s2\<lparr> calls := calls s2 @ [Creg_wait_for_empty] \<rparr>
             in case creg_wait_for_empty cr of
                  Some cr' \<Rightarrow> (Finished, s3\<lparr> registry := Some cr' \<rparr>)
                | None \<Rightarrow> sem_wait_empty s3 exits)"

definition terminate ::
  "server \<Rightarrow> int \<Rightarrow> (int \<times> ptr option) list \<Rightarrow> outcome \<times> server" where
  "terminate s status exits =
     (case stop_clients s exits of
        (Finished, s3) \<Rightarrow>
          let s4 = s3\<lparr> registry := None, calls := calls s3 @ [Creg_fini] \<rparr>;
              s5 = s4\<lparr> calls := calls s4 @ [Player_fini] \<rparr>
          in (case player_fini s5 of
                None \<Rightarrow> (Undefined, s5)
              | Some s6 \<Rightarrow>
                  (Finished, s6\<lparr> maze_st := maze_fini (maze_st s6),
                                 calls := calls s6 @ [Maze_fini, Exit status] \<rparr>))
      | (Blocked, s3) \<Rightarrow> (Blocked, s3)
      | (Undefined, s3) \<Rightarrow> (Undefined, s3))"


section \<open>States to run the server on\<close>

text \<open>Two players in \<^verbatim>\<open>demo_maze\<close>: alice with the avatar \<^verbatim>\<open>A\<close> at (1,1) on descriptor 5,
  bob with the avatar \<^verbatim>\<open>B\<close> at (1,3) on descriptor 6; \<^verbatim>\<open>rand\<close> returns 3 on every call
  (the cell (3,3) is empty).\<close>

definition alice :: PLAYER where
  "alice = zero_player\<lparr> ref_count := 1, client_fd := 5, avatar := CHR ''A'', name := ''alice'',
                        row := 1, col := 1, dir := EAST, score := 3, thread_id := 1,
                        view_valid_depth := -1 \<rparr>"

definition bob :: PLAYER where
  "bob = zero_player\<lparr> ref_count := 1, client_fd := 6, avatar := CHR ''B'', name := ''bob'',
                      row := 1, col := 3, dir := WEST, score := 0, thread_id := 2,
                      view_valid_depth := -1 \<rparr>"

definition demo_server :: server where
  "demo_server =
     \<lparr> maze_st = demo_maze, rand_seq = (\<lambda>n. 3), rand_calls = 0,
       heap = [10 \<mapsto> alice, 11 \<mapsto> bob], fresh = [12, 13],
       player_map = [65 \<mapsto> 10, 66 \<mapsto> 11], sent = [], signals = [],
       uninit_view = replicate VIEW_DEPTH ''???'', uninit_buf = replicate 1024 (CHR ''?''),
       registry = Some \<lparr> client_fds = [5, 6, 7] @ replicate 125 (-1), count = 3, empty = 0 \<rparr>,
       listenfd = 3, shut_down = [], closed = [], calls = [], map_log = [] \<rparr>"

text \<open>A maze without an empty cell, in which alice is not placed: she was hit at (1,1) and
  removed, and bob was placed on that cell before her respawn.\<close>

definition full_maze :: maze_state where
  "full_maze = \<lparr> maze = [''**'', ''*B''], maze_rows = 2, maze_cols = 2 \<rparr>"

definition limbo_server :: server where
  "limbo_server =
     demo_server\<lparr> maze_st := full_maze,
                   heap := [10 \<mapsto> alice, 11 \<mapsto> bob\<lparr> row := 1, col := 1 \<rparr>] \<rparr>"

text \<open>The same server after everybody has left: no player, no descriptor in the registry.\<close>

definition idle_server :: server where
  "idle_server =
     demo_server\<lparr> heap := Map.empty, player_map := Map.empty,
                   registry := Some \<lparr> client_fds = replicate 128 (-1), count = 0, empty = 1 \<rparr> \<rparr>"

text \<open>A player whose name has 40000 bytes.\<close>

definition long_alice :: PLAYER where
  "long_alice = alice\<lparr> name := replicate 40000 (CHR ''a'') \<rparr>"








text \<open>What \<^verbatim>\<open>maze_get_view\<close> writes, stated on the maze alone. A side cell reads as a wall
  \<^verbatim>\<open>*\<close> when it is outside the grid. The row for step i holds the side cell at the offset
  of the code's tables \<^verbatim>\<open>lrow\<close>, \<^verbatim>\<open>lcol\<close> from the i-th corridor cell, that corridor cell,
  and the side cell at the negated offset. The number of steps is the number of corridor
  cells before the first one outside the grid, up to the depth asked for.\<close>

definition side_cell :: "maze_state \<Rightarrow> int \<Rightarrow> int \<Rightarrow> OBJECT" where
  "side_cell m r c = (if out_of_bounds m r c then CHR ''*'' else maze_at m r c)"

definition table_offset :: "DIRECTION \<Rightarrow> int \<times> int" where
  "table_offset gaze = (lrow ! dir_index gaze, lcol ! dir_index gaze)"

definition view_row :: "maze_state \<Rightarrow> int \<Rightarrow> int \<Rightarrow> DIRECTION \<Rightarrow> nat \<Rightarrow> OBJECT list" where
  "view_row m r c gaze i =
     (let p = ray_cell r c gaze i; l = table_offset gaze
      in [side_cell m (fst p + fst l) (snd p + snd l), maze_at m (fst p) (snd p),
          side_cell m (fst p - fst l) (snd p - snd l)])"

definition corridor_ok :: "maze_state \<Rightarrow> int \<Rightarrow> int \<Rightarrow> DIRECTION \<Rightarrow> nat \<Rightarrow> bool" where
  "corridor_ok m r c gaze i =
     (\<not> out_of_bounds m (fst (ray_cell r c gaze i)) (snd (ray_cell r c gaze i)))"

definition view_steps :: "maze_state \<Rightarrow> int \<Rightarrow> int \<Rightarrow> DIRECTION \<Rightarrow> nat \<Rightarrow> nat \<Rightarrow> nat" where
  "view_steps m r c gaze d depth = length (takeWhile (corridor_ok m r c gaze) [d..<depth])"

text \<open>A view buffer: rows of three cells.\<close>

definition wf_view :: "VIEW \<Rightarrow> bool" where
  "wf_view view = list_all (\<lambda>row. length row = VIEW_WIDTH) view"


text \<open>\<^verbatim>\<open>demo_server\<close> with an empty registry while alice and bob are still in the player
  table, alice with a second reference, as \<^verbatim>\<open>player_get\<close> gives one. And the three service
  threads of \<^verbatim>\<open>demo_server\<close> leaving their loops: the one of alice, the one of bob, and the
  one of descriptor 7, which has no player.\<close>

definition leftover_server :: server where
  "leftover_server =
     demo_server\<lparr> heap := [10 \<mapsto> alice\<lparr> ref_count := 2 \<rparr>, 11 \<mapsto> bob],
                   registry := Some \<lparr> client_fds = replicate 128 (-1), count = 0, empty = 0 \<rparr> \<rparr>"

definition demo_exits :: "(int \<times> ptr option) list" where
  "demo_exits = [(5, Some 10), (6, Some 11), (7, None)]"

text \<open>What \<^verbatim>\<open>player_unref\<close> leaves of a player: nothing when it drops the last reference,
  the player with one reference fewer otherwise. The players that the table holds. The
  invariant of the table: an entry holds an allocated player with the avatar of the entry.
  And the calls of the teardown, in the order in which \<^verbatim>\<open>terminate\<close> has them.\<close>

definition released :: "PLAYER \<Rightarrow> PLAYER option" where
  "released pl =
     (if ref_count pl - 1 = 0 then None else Some (pl\<lparr> ref_count := ref_count pl - 1 \<rparr>))"

definition in_table :: "server \<Rightarrow> ptr \<Rightarrow> bool" where
  "in_table s q = (\<exists>i \<in> {0..<MAX_PLAYERS}. player_map s i = Some q)"

definition table_ok :: "server \<Rightarrow> bool" where
  "table_ok s =
     (\<forall>i \<in> {0..<MAX_PLAYERS}.
        case player_map s i of
          None \<Rightarrow> True
        | Some q \<Rightarrow> (case heap s q of None \<Rightarrow> False | Some pl \<Rightarrow> of_char (avatar pl) = i))"

definition teardown :: "server \<Rightarrow> int \<Rightarrow> call list" where
  "teardown s status =
     (if listenfd s > 0 then [Close (listenfd s)] else []) @
     [Creg_shutdown_all, Creg_wait_for_empty, Creg_fini, Player_fini, Maze_fini, Exit status]"


section \<open>Properties of the maze\<close>

lemma drow_dcol_offset: "(drow ! dir_index d, dcol ! dir_index d) = offset d"
  by (cases d) (simp_all add: drow_def dcol_def)

lemma offset_nonzero: "offset d \<noteq> (0, 0)"
  by (cases d) simp_all

lemma wf_maze_row_index:
  "wf_maze m \<Longrightarrow> \<not> out_of_bounds m r c \<Longrightarrow> nat r < length (maze m)"
  by (auto simp: wf_maze_def out_of_bounds_def)

lemma wf_maze_row_length:
  assumes "wf_maze m" "\<not> out_of_bounds m r c"
  shows "nat c < length (maze m ! nat r)"
proof -
  have "nat r < length (maze m)" using assms by (rule wf_maze_row_index)
  then have "int (length (maze m ! nat r)) = maze_cols m"
    using assms(1) by (simp add: wf_maze_def list_all_length)
  then show ?thesis using assms(2) by (auto simp: out_of_bounds_def)
qed

lemma maze_put_dims [simp]:
  "maze_rows (maze_put m r c v) = maze_rows m" "maze_cols (maze_put m r c v) = maze_cols m"
  by (simp_all add: maze_put_def)

lemma out_of_bounds_maze_put [simp]:
  "out_of_bounds (maze_put m r c v) r' c' = out_of_bounds m r' c'"
  by (simp add: out_of_bounds_def)

lemma wf_maze_put: "wf_maze m \<Longrightarrow> wf_maze (maze_put m r c v)"
proof -
  assume wf: "wf_maze m"
  have "int (length ((maze m)[nat r := (maze m ! nat r)[nat c := v]] ! n)) = maze_cols m"
    if "n < length (maze m)" for n
    using that wf by (cases "n = nat r") (simp_all add: wf_maze_def list_all_length)
  then show ?thesis
    using wf by (simp add: wf_maze_def maze_put_def list_all_length)
qed

lemma maze_at_put:
  assumes "wf_maze m" "\<not> out_of_bounds m r c" "\<not> out_of_bounds m r' c'"
  shows "maze_at (maze_put m r c v) r' c' = (if r' = r \<and> c' = c then v else maze_at m r' c')"
proof -
  have r: "nat r < length (maze m)" and c: "nat c < length (maze m ! nat r)"
    using assms(1,2) by (rule wf_maze_row_index wf_maze_row_length)+
  have nn: "0 \<le> r" "0 \<le> c" "0 \<le> r'" "0 \<le> c'"
    using assms(2,3) by (simp_all add: out_of_bounds_def)
  show ?thesis
  proof (cases "r' = r")
    case True
    then show ?thesis using r c nn
      by (auto simp: maze_at_def maze_put_def nth_list_update)
  next
    case False
    then have "nat r' \<noteq> nat r" using nn by simp
    then show ?thesis using False
      by (simp add: maze_at_def maze_put_def)
  qed
qed

lemma maze_move_cases:
  assumes "wf_maze m"
  shows "(maze_move m r c d \<noteq> None) =
           (\<not> out_of_bounds m r c \<and> IS_AVATAR (maze_at m r c) \<and>
            \<not> out_of_bounds m (r + fst (offset d)) (c + snd (offset d)) \<and>
            IS_EMPTY (maze_at m (r + fst (offset d)) (c + snd (offset d))))"
    and "maze_move m r c d = Some m' \<Longrightarrow>
           maze_at m' (r + fst (offset d)) (c + snd (offset d)) = maze_at m r c \<and>
           maze_at m' r c = EMPTY \<and> wf_maze m'"
proof -
  have tab: "drow ! dir_index d = fst (offset d)" "dcol ! dir_index d = snd (offset d)"
    using drow_dcol_offset [of d] by (simp_all add: prod_eq_iff)
  show "(maze_move m r c d \<noteq> None) =
           (\<not> out_of_bounds m r c \<and> IS_AVATAR (maze_at m r c) \<and>
            \<not> out_of_bounds m (r + fst (offset d)) (c + snd (offset d)) \<and>
            IS_EMPTY (maze_at m (r + fst (offset d)) (c + snd (offset d))))"
    by (auto simp: maze_move_def out_of_bounds_def tab Let_def)
  assume ok: "maze_move m r c d = Some m'"
  let ?r' = "r + fst (offset d)" and ?c' = "c + snd (offset d)"
  from ok have src: "\<not> out_of_bounds m r c" and dst: "\<not> out_of_bounds m ?r' ?c'"
    and m': "m' = maze_put (maze_put m ?r' ?c' (maze_at m r c)) r c EMPTY"
    by (auto simp: maze_move_def out_of_bounds_def tab Let_def split: if_splits)
  have ne: "\<not> (?r' = r \<and> ?c' = c)"
    using offset_nonzero [of d] by (auto simp: prod_eq_iff)
  let ?m1 = "maze_put m ?r' ?c' (maze_at m r c)"
  have wf1: "wf_maze ?m1" using assms by (rule wf_maze_put)
  have src1: "\<not> out_of_bounds ?m1 r c" using src by simp
  have dst1: "\<not> out_of_bounds ?m1 ?r' ?c'" using dst by simp
  have "maze_at m' ?r' ?c' = maze_at ?m1 ?r' ?c'"
    unfolding m' using maze_at_put [OF wf1 src1 dst1, of EMPTY] ne by auto
  also have "\<dots> = maze_at m r c"
    using assms dst by (simp add: maze_at_put)
  finally have a: "maze_at m' ?r' ?c' = maze_at m r c" .
  have b: "maze_at m' r c = EMPTY"
    unfolding m' using maze_at_put [OF wf1 src1 src1] by simp
  have c: "wf_maze m'"
    unfolding m' using wf1 by (rule wf_maze_put)
  from a b c show "maze_at m' ?r' ?c' = maze_at m r c \<and> maze_at m' r c = EMPTY \<and> wf_maze m'"
    by simp
qed

text \<open>
  Claim C3. For every maze state, position (r,c) and direction d, \<^verbatim>\<open>maze_move\<close> succeeds if
  and only if the source cell holds an avatar and the neighbour cell (r,c)+offset(d) is in
  bounds and empty; when it succeeds, the avatar byte has been written to the neighbour cell
  and \<^verbatim>\<open>EMPTY\<close> to the source cell, the offsets being N:(-1,0), W:(0,-1), S:(+1,0),
  E:(0,+1). ("The source cell holds an avatar" includes that (r,c) is a cell of the grid.)
\<close>

theorem maze_move_succeeds_iff:
  "wf_maze m \<Longrightarrow>
     (maze_move m r c d \<noteq> None) =
       (\<not> out_of_bounds m r c \<and> IS_AVATAR (maze_at m r c) \<and>
        \<not> out_of_bounds m (r + fst (offset d)) (c + snd (offset d)) \<and>
        IS_EMPTY (maze_at m (r + fst (offset d)) (c + snd (offset d)))) \<and>
     (\<forall>m'. maze_move m r c d = Some m' \<longrightarrow>
        maze_at m' (r + fst (offset d)) (c + snd (offset d)) = maze_at m r c \<and>
        maze_at m' r c = EMPTY \<and> wf_maze m')"
  using maze_move_cases [of m r c d] by blast

theorem maze_move_succeeds_iff_witness:
  "wf_maze demo_maze \<and>
   (\<exists>m'. maze_move demo_maze 1 1 EAST = Some m' \<and>
      maze_at m' 1 2 = CHR ''A'' \<and> maze_at m' 1 1 = EMPTY \<and> wf_maze m')"
proof -
  have wf: "wf_maze demo_maze"
    by (simp add: wf_maze_def demo_maze_def)
  have src: "maze_at demo_maze 1 1 = CHR ''A''" and dst: "maze_at demo_maze 1 2 = CHR '' ''"
    by (simp_all add: maze_at_def demo_maze_def)
  have dims: "maze_rows demo_maze = 5" "maze_cols demo_maze = 5"
    by (simp_all add: demo_maze_def)
  show ?thesis
    using maze_move_succeeds_iff [OF wf, of 1 1 EAST] wf
    by (auto simp: src dst dims out_of_bounds_def IS_AVATAR_def IS_EMPTY_def EMPTY_def)
qed


subsection \<open>Line of sight\<close>

lemma ray_cell_0: "ray_cell r c d 0 = (r, c)"
  by (simp add: ray_cell_def)

lemma ray_cell_1: "ray_cell r c d (Suc 0) = (r + drow ! dir_index d, c + dcol ! dir_index d)"
  using drow_dcol_offset [of d] by (simp add: ray_cell_def prod_eq_iff)

lemma ray_cell_shift:
  "ray_cell (r + drow ! dir_index d) (c + dcol ! dir_index d) d k = ray_cell r c d (Suc k)"
  using drow_dcol_offset [of d] by (simp add: ray_cell_def prod_eq_iff algebra_simps)

lemma stops_at_Suc:
  assumes "ray_open m (ray_cell r c d (Suc 0))"
    and "stops_at m (r + drow ! dir_index d) (c + dcol ! dir_index d) d k"
  shows "stops_at m r c d (Suc k)"
proof -
  have "ray_open m (ray_cell r c d j)" if "1 \<le> j" "j < Suc k" for j
  proof (cases "j = 1")
    case True
    then show ?thesis using assms(1) by simp
  next
    case False
    with that obtain i where j: "j = Suc i" and i: "1 \<le> i" "i < k"
      by (cases j) auto
    then have "ray_open m (ray_cell (r + drow ! dir_index d) (c + dcol ! dir_index d) d i)"
      using assms(2) by (simp add: stops_at_def list_all_iff)
    then show ?thesis by (simp add: j ray_cell_shift)
  qed
  moreover have "\<not> ray_open m (ray_cell r c d (Suc k))"
    using assms(2) by (simp add: stops_at_def ray_cell_shift)
  ultimately show ?thesis
    by (auto simp: stops_at_def list_all_iff)
qed

lemma maze_find_target_loop_stops:
  "\<not> out_of_bounds m r c \<Longrightarrow>
     \<exists>k. stops_at m r c d k \<and> maze_find_target_loop m r c d = target_of m (ray_cell r c d k)"
proof (induction m r c d rule: maze_find_target_loop.induct)
  case (1 m r c d)
  let ?r' = "r + drow ! dir_index d" and ?c' = "c + dcol ! dir_index d"
  from "1.prems" have inb: "r \<ge> 0 \<and> r < maze_rows m \<and> c \<ge> 0 \<and> c < maze_cols m"
    by (auto simp: out_of_bounds_def)
  show ?case
  proof (cases "ray_open m (?r', ?c')")
    case False
    then have stop: "stops_at m r c d 1"
      by (simp add: stops_at_def ray_cell_1)
    have "maze_find_target_loop m r c d = target_of m (?r', ?c')"
      using False inb
      by (subst maze_find_target_loop.simps)
         (auto simp: ray_open_def target_of_def out_of_bounds_def Let_def)
    then show ?thesis using stop by (auto simp: ray_cell_1 intro!: exI [of _ 1])
  next
    case True
    then have nb: "\<not> out_of_bounds m ?r' ?c'" and emp: "IS_EMPTY (maze_at m ?r' ?c')"
      by (simp_all add: ray_open_def)
    have step: "maze_find_target_loop m r c d = maze_find_target_loop m ?r' ?c' d"
      using nb emp inb
      by (subst maze_find_target_loop.simps) (auto simp: out_of_bounds_def Let_def)
    from nb emp inb have
      "\<exists>k. stops_at m ?r' ?c' d k \<and>
           maze_find_target_loop m ?r' ?c' d = target_of m (ray_cell ?r' ?c' d k)"
      by (intro "1.IH") (auto simp: out_of_bounds_def)
    then obtain k where k: "stops_at m ?r' ?c' d k"
      and res: "maze_find_target_loop m ?r' ?c' d = target_of m (ray_cell ?r' ?c' d k)"
      by blast
    have "stops_at m r c d (Suc k)"
      using True k by (intro stops_at_Suc) (simp_all add: ray_cell_1)
    then show ?thesis
      using step res by (auto simp: ray_cell_shift)
  qed
qed

lemma stops_at_before:
  "stops_at m r c d k' \<Longrightarrow> 1 \<le> k \<Longrightarrow> k < k' \<Longrightarrow> ray_open m (ray_cell r c d k)"
  by (simp add: stops_at_def list_all_iff)

lemma stops_at_unique:
  assumes "stops_at m r c d k" "stops_at m r c d k'"
  shows "k = k'"
proof (rule ccontr)
  assume "k \<noteq> k'"
  then consider "k < k'" | "k' < k" by linarith
  then show False
  proof cases
    case 1
    moreover have "1 \<le> k" using assms(1) by (simp add: stops_at_def)
    ultimately have "ray_open m (ray_cell r c d k)"
      using assms(2) stops_at_before by blast
    then show False using assms(1) by (simp add: stops_at_def)
  next
    case 2
    moreover have "1 \<le> k'" using assms(2) by (simp add: stops_at_def)
    ultimately have "ray_open m (ray_cell r c d k')"
      using assms(1) stops_at_before by blast
    then show False using assms(2) by (simp add: stops_at_def)
  qed
qed

text \<open>
  Claim C8. For every maze state, in-bounds start (r,c) and direction d, \<^verbatim>\<open>maze_find_target\<close>
  steps cell by cell in direction d from (r,c) and halts at the first cell that is not empty
  or at the edge of the grid: there is exactly one step k, at least 1, such that every
  earlier cell of the ray is in bounds and empty and the k-th is not. The function returns the
  byte of that cell when it is an avatar and \<^verbatim>\<open>EMPTY\<close> otherwise (also when the edge was
  reached), and it leaves the maze as it was.
\<close>

theorem maze_find_target_first_hit:
  "\<not> out_of_bounds m r c \<Longrightarrow>
     (\<exists>k. stops_at m r c d k \<and>
          (\<forall>k'. stops_at m r c d k' \<longrightarrow> k' = k) \<and>
          fst (maze_find_target m r c d) = target_of m (ray_cell r c d k)) \<and>
     snd (maze_find_target m r c d) = m"
proof -
  assume "\<not> out_of_bounds m r c"
  then obtain k where k: "stops_at m r c d k"
    and res: "maze_find_target_loop m r c d = target_of m (ray_cell r c d k)"
    using maze_find_target_loop_stops by blast
  have uniq: "\<forall>k'. stops_at m r c d k' \<longrightarrow> k' = k"
    using k stops_at_unique by blast
  have "fst (maze_find_target m r c d) = target_of m (ray_cell r c d k)"
    using res by (simp add: maze_find_target_def)
  with k uniq have "\<exists>k. stops_at m r c d k \<and>
          (\<forall>k'. stops_at m r c d k' \<longrightarrow> k' = k) \<and>
          fst (maze_find_target m r c d) = target_of m (ray_cell r c d k)"
    by blast
  then show ?thesis
    by (simp add: maze_find_target_def)
qed

theorem maze_find_target_first_hit_witness:
  "\<not> out_of_bounds demo_maze 1 1 \<and> stops_at demo_maze 1 1 EAST 2 \<and>
   fst (maze_find_target demo_maze 1 1 EAST) = CHR ''B'' \<and>
   snd (maze_find_target demo_maze 1 1 EAST) = demo_maze"
proof -
  have inb: "\<not> out_of_bounds demo_maze 1 1"
    by (simp add: out_of_bounds_def demo_maze_def)
  have two: "[Suc 0..<2] = [Suc 0]"
    by (simp add: upt_rec)
  have stop: "stops_at demo_maze 1 1 EAST 2"
    by (simp add: stops_at_def two ray_open_def ray_cell_def out_of_bounds_def maze_at_def
        demo_maze_def IS_EMPTY_def EMPTY_def)
  have tgt: "target_of demo_maze (ray_cell 1 1 EAST 2) = CHR ''B''"
    by (simp add: target_of_def ray_cell_def out_of_bounds_def maze_at_def demo_maze_def
        IS_AVATAR_def)
  from maze_find_target_first_hit [OF inb, of EAST] obtain k
    where k: "\<forall>k'. stops_at demo_maze 1 1 EAST k' \<longrightarrow> k' = k"
      and res: "fst (maze_find_target demo_maze 1 1 EAST) = target_of demo_maze (ray_cell 1 1 EAST k)"
      and same: "snd (maze_find_target demo_maze 1 1 EAST) = demo_maze"
    by blast
  from k stop have "k = 2" by blast
  with res tgt inb stop same show ?thesis by simp
qed

subsection \<open>The view\<close>


lemma table_offset_cases:
  "table_offset NORTH = left_offset NORTH" "table_offset SOUTH = left_offset SOUTH"
  "table_offset WEST = (- fst (left_offset WEST), - snd (left_offset WEST))"
  "table_offset EAST = (- fst (left_offset EAST), - snd (left_offset EAST))"
  by (simp_all add: table_offset_def lrow_def lcol_def)

lemma left_offset_is_turn_left: "left_offset d = offset (TURN_LEFT d)"
  by (cases d) (simp_all add: TURN_LEFT_def)

lemma view_put_row:
  assumes "d < length view" "length (view ! d) = VIEW_WIDTH"
  shows "view_put (view_put (view_put view d CORRIDOR b) d LEFT_WALL a) d RIGHT_WALL e
           = view[d := [a, b, e]]"
proof -
  obtain x y z where row: "view ! d = [x, y, z]"
    using assms(2) by (auto simp: VIEW_WIDTH_def numeral_3_eq_3 length_Suc_conv)
  show ?thesis
    using assms(1) by (simp add: view_put_def row CORRIDOR_def LEFT_WALL_def RIGHT_WALL_def)
qed

lemma view_steps_stop:
  "d < depth \<Longrightarrow> \<not> corridor_ok m r c gaze d \<Longrightarrow> view_steps m r c gaze d depth = 0"
  by (simp add: view_steps_def upt_conv_Cons)

lemma view_steps_step:
  "d < depth \<Longrightarrow> corridor_ok m r c gaze d \<Longrightarrow>
     view_steps m r c gaze d depth = Suc (view_steps m r c gaze (Suc d) depth)"
  by (simp add: view_steps_def upt_conv_Cons)

lemma view_steps_end: "depth \<le> d \<Longrightarrow> view_steps m r c gaze d depth = 0"
  by (simp add: view_steps_def)

text \<open>
  What \<^verbatim>\<open>maze_get_view\<close> does for any gaze: it writes one row per corridor step before the
  first corridor cell outside the grid, at most \<^verbatim>\<open>depth\<close> of them, leaves the other rows
  of the buffer as they were, and returns the number of rows written. Each row holds the
  corridor cell between the two side cells, a \<^verbatim>\<open>*\<close> standing for a side cell outside the
  grid. The side cell written to \<^verbatim>\<open>LEFT_WALL\<close> is the one at the offset of the tables
  \<^verbatim>\<open>lrow\<close>, \<^verbatim>\<open>lcol\<close>, which is the left of the gaze for NORTH and SOUTH and its right for
  WEST and EAST (\<open>table_offset_cases\<close>).
\<close>

lemma maze_get_view_loop_rows:
  assumes "nat depth \<le> length view" "wf_view view"
  shows "\<exists>view'. maze_get_view_loop m view r c gaze depth (int d) a
                   = Some (view', a + int (view_steps m r c gaze d (nat depth))) \<and>
           length view' = length view \<and> wf_view view' \<and>
           (\<forall>i < length view. view' ! i =
              (if d \<le> i \<and> i < d + view_steps m r c gaze d (nat depth)
               then view_row m r c gaze i else view ! i))"
  using assms
proof (induction "nat depth - d" arbitrary: d view a)
  case 0
  then have "\<not> int d < depth" by simp
  then have "maze_get_view_loop m view r c gaze depth (int d) a = Some (view, a)"
    by (subst maze_get_view_loop.simps) simp
  moreover have "view_steps m r c gaze d (nat depth) = 0"
    using 0 by (intro view_steps_end) simp
  ultimately show ?case using "0.prems" by auto
next
  case (Suc n)
  then have lt: "int d < depth" and dn: "d < nat depth" by simp_all
  have cell: "(r + int d * drow ! dir_index gaze, c + int d * dcol ! dir_index gaze)
                = ray_cell r c gaze d"
    using drow_dcol_offset [of gaze] by (simp add: ray_cell_def prod_eq_iff)
  let ?r0 = "r + int d * drow ! dir_index gaze" and ?c0 = "c + int d * dcol ! dir_index gaze"
  have r0: "?r0 = fst (ray_cell r c gaze d)" and c0: "?c0 = snd (ray_cell r c gaze d)"
    using cell by (simp_all add: prod_eq_iff)
  show ?case
  proof (cases "corridor_ok m r c gaze d")
    case False
    then have "out_of_bounds m ?r0 ?c0"
      by (simp add: corridor_ok_def r0 c0)
    then have "maze_get_view_loop m view r c gaze depth (int d) a = Some (view, a)"
      using lt by (subst maze_get_view_loop.simps) (simp add: out_of_bounds_def Let_def)
    moreover have "view_steps m r c gaze d (nat depth) = 0"
      using dn False by (rule view_steps_stop)
    ultimately show ?thesis using Suc.prems by auto
  next
    case True
    then have inb: "\<not> out_of_bounds m ?r0 ?c0"
      by (simp add: corridor_ok_def r0 c0)
    have dl: "d < length view" using dn Suc.prems(1) by simp
    then have w: "length (view ! d) = VIEW_WIDTH"
      using Suc.prems(2) by (simp add: wf_view_def list_all_length)
    let ?row = "view_row m r c gaze d"
    let ?view3 = "view[d := ?row]"
    have row: "?row = [side_cell m (?r0 + lrow ! dir_index gaze) (?c0 + lcol ! dir_index gaze),
                       maze_at m ?r0 ?c0,
                       side_cell m (?r0 - lrow ! dir_index gaze) (?c0 - lcol ! dir_index gaze)]"
      by (simp add: view_row_def table_offset_def Let_def r0 c0)
    have step: "maze_get_view_loop m view r c gaze depth (int d) a
                  = maze_get_view_loop m ?view3 r c gaze depth (int (Suc d)) (a + 1)"
      using lt inb dl view_put_row [OF dl w]
      by (subst maze_get_view_loop.simps)
         (simp add: out_of_bounds_def Let_def row side_cell_def add.commute)
    have "length (?view3 ! i) = VIEW_WIDTH" if "i < length view" for i
      using that Suc.prems(2)
      by (cases "i = d") (simp_all add: wf_view_def list_all_length view_row_def Let_def VIEW_WIDTH_def)
    then have wf3: "wf_view ?view3"
      by (simp add: wf_view_def list_all_length)
    have "n = nat depth - Suc d" using Suc.hyps(2) by simp
    from Suc.hyps(1) [OF this, of ?view3 "a + 1"] Suc.prems(1) wf3
    obtain view' where
      res: "maze_get_view_loop m ?view3 r c gaze depth (int (Suc d)) (a + 1)
              = Some (view', a + 1 + int (view_steps m r c gaze (Suc d) (nat depth)))"
      and len: "length view' = length view" and wf': "wf_view view'"
      and rows: "\<forall>i < length view. view' ! i =
              (if Suc d \<le> i \<and> i < Suc d + view_steps m r c gaze (Suc d) (nat depth)
               then view_row m r c gaze i else ?view3 ! i)"
      by auto
    have k: "view_steps m r c gaze d (nat depth) = Suc (view_steps m r c gaze (Suc d) (nat depth))"
      using dn True by (rule view_steps_step)
    have "\<forall>i < length view. view' ! i =
              (if d \<le> i \<and> i < d + view_steps m r c gaze d (nat depth)
               then view_row m r c gaze i else view ! i)"
      using rows dl by (auto simp: k nth_list_update)
    with step res len wf' k show ?thesis by simp
  qed
qed

lemma maze_get_view_rows:
  assumes "nat depth \<le> length view" "wf_view view"
  shows "\<exists>view'. maze_get_view m view r c gaze depth
                   = Some (view', int (view_steps m r c gaze 0 (nat depth))) \<and>
           length view' = length view \<and>
           (\<forall>i < length view. view' ! i =
              (if i < view_steps m r c gaze 0 (nat depth)
               then view_row m r c gaze i else view ! i))"
  using maze_get_view_loop_rows [OF assms, of m r c gaze 0 0]
  by (auto simp: maze_get_view_def)


text \<open>
  Claim C1, run on the code. In \<^verbatim>\<open>demo_maze\<close> the avatar \<^verbatim>\<open>B\<close> stands at (1,3). Gazing
  WEST, the cell to its left is (2,3), one row further down (the specification's offset for
  W is (+1,0)), and it is empty; the cell to its right is (0,3), a wall. \<^verbatim>\<open>maze_get_view\<close>
  writes the wall to \<^verbatim>\<open>LEFT_WALL\<close> and the empty cell to \<^verbatim>\<open>RIGHT_WALL\<close>: its table
  \<^verbatim>\<open>lrow\<close> holds -1 for WEST and +1 for EAST.
\<close>

theorem maze_get_view_west_left_is_right:
  "maze_get_view demo_maze [''???''] 1 3 WEST 1 = Some ([''*B ''], 1) \<and>
   maze_at demo_maze (1 + fst (left_offset WEST)) (3 + snd (left_offset WEST)) = CHR '' '' \<and>
   maze_at demo_maze (1 - fst (left_offset WEST)) (3 - snd (left_offset WEST)) = CHR ''*''"
  by (simp add: maze_get_view_def maze_get_view_loop.simps Let_def drow_def dcol_def lrow_def
      lcol_def view_put_def LEFT_WALL_def CORRIDOR_def RIGHT_WALL_def maze_at_def demo_maze_def)


section \<open>Properties of the client registry\<close>

lemma creg_register_loop_full:
  "\<forall>j. i \<le> j \<and> j < MAX_CLIENTS \<longrightarrow> client_fds cr ! j \<noteq> -1 \<Longrightarrow>
     creg_register_loop cr fd i = cr"
proof (induction cr fd i rule: creg_register_loop.induct)
  case (1 cr fd i)
  show ?case
  proof (cases "i < MAX_CLIENTS")
    case True
    then have slot: "client_fds cr ! i \<noteq> -1" using "1.prems" by simp
    have "creg_register_loop cr fd (i + 1) = cr"
      using True slot "1.prems" by (intro "1.IH") auto
    then show ?thesis
      using True slot by (subst creg_register_loop.simps) simp
  next
    case False
    then show ?thesis by (subst creg_register_loop.simps) simp
  qed
qed

lemma creg_unregister_loop_absent:
  "\<forall>j. i \<le> j \<and> j < MAX_CLIENTS \<longrightarrow> client_fds cr ! j \<noteq> fd \<Longrightarrow>
     creg_unregister_loop cr fd i = cr"
proof (induction cr fd i rule: creg_unregister_loop.induct)
  case (1 cr fd i)
  show ?case
  proof (cases "i < MAX_CLIENTS")
    case True
    then have slot: "client_fds cr ! i \<noteq> fd" using "1.prems" by simp
    have "creg_unregister_loop cr fd (i + 1) = cr"
      using True slot "1.prems" by (intro "1.IH") auto
    then show ?thesis
      using True slot by (subst creg_unregister_loop.simps) simp
  next
    case False
    then show ?thesis by (subst creg_unregister_loop.simps) simp
  qed
qed

lemma creg_shutdown_all_loop_subset:
  "set (creg_shutdown_all_loop cr i) \<subseteq> {client_fds cr ! j | j. i \<le> j \<and> j < MAX_CLIENTS}"
proof (induction cr i rule: creg_shutdown_all_loop.induct)
  case (1 cr i)
  show ?case
  proof (cases "i < MAX_CLIENTS")
    case True
    have sub: "{client_fds cr ! j | j. i + 1 \<le> j \<and> j < MAX_CLIENTS}
                 \<subseteq> {client_fds cr ! j | j. i \<le> j \<and> j < MAX_CLIENTS}"
      by auto
    have here: "client_fds cr ! i \<in> {client_fds cr ! j | j. i \<le> j \<and> j < MAX_CLIENTS}"
      using True by auto
    show ?thesis
    proof (cases "client_fds cr ! i \<noteq> -1")
      case slot: True
      with True "1.IH"(1) sub here show ?thesis
        by (subst creg_shutdown_all_loop.simps) auto
    next
      case slot: False
      with True "1.IH"(2) sub show ?thesis
        by (subst creg_shutdown_all_loop.simps) auto
    qed
  next
    case False
    then show ?thesis by (subst creg_shutdown_all_loop.simps) simp
  qed
qed

lemma creg_shutdown_all_tracked:
  assumes "wf_registry cr"
  shows "set (creg_shutdown_all cr) \<subseteq> set (client_fds cr)"
proof -
  have "{client_fds cr ! j | j. 0 \<le> j \<and> j < MAX_CLIENTS} \<subseteq> set (client_fds cr)"
    using assms by (auto simp: wf_registry_def)
  then show ?thesis
    using creg_shutdown_all_loop_subset [of cr 0] by (auto simp: creg_shutdown_all_def)
qed

lemma slots_not_value:
  "wf_registry cr \<Longrightarrow> v \<notin> set (client_fds cr) \<Longrightarrow>
     \<forall>j. 0 \<le> j \<and> j < MAX_CLIENTS \<longrightarrow> client_fds cr ! j \<noteq> v"
  by (auto simp: wf_registry_def)

text \<open>
  Claim C10. The registry holds at most 128 descriptors. When all 128 slots are taken (no
  slot holds -1), \<^verbatim>\<open>creg_register\<close> leaves the array, the count and the semaphore as they
  are: a descriptor that is not already in the array is then not among those that a later
  \<^verbatim>\<open>creg_shutdown_all\<close> shuts down, and \<^verbatim>\<open>creg_wait_for_empty\<close> behaves as before the call.
  In any registry, \<^verbatim>\<open>creg_unregister\<close> of a descriptor that is in no slot leaves the
  array and the count as they are and posts the semaphore exactly when the count is
  0.
\<close>

theorem creg_register_full_untracked:
  "wf_registry cr \<Longrightarrow>
     (-1 \<notin> set (client_fds cr) \<longrightarrow>
        creg_register cr fd = cr \<and>
        (fd \<notin> set (client_fds cr) \<longrightarrow> fd \<notin> set (creg_shutdown_all (creg_register cr fd))) \<and>
        creg_wait_for_empty (creg_register cr fd) = creg_wait_for_empty cr) \<and>
     (fd \<notin> set (client_fds cr) \<longrightarrow>
        creg_unregister cr fd = (if count cr = 0 then cr\<lparr> empty := empty cr + 1 \<rparr> else cr))"
proof -
  assume wf: "wf_registry cr"
  have reg: "creg_register cr fd = cr" if "-1 \<notin> set (client_fds cr)"
    unfolding creg_register_def
    using slots_not_value [OF wf that] by (intro creg_register_loop_full) simp
  have shut: "fd \<notin> set (creg_shutdown_all cr)" if "fd \<notin> set (client_fds cr)"
    using creg_shutdown_all_tracked [OF wf] that by blast
  have unreg: "creg_unregister_loop cr fd 0 = cr" if "fd \<notin> set (client_fds cr)"
    using slots_not_value [OF wf that] by (intro creg_unregister_loop_absent) simp
  show ?thesis
    using reg shut unreg by (simp add: creg_unregister_def sem_post_def Let_def)
qed

theorem creg_register_full_untracked_witness:
  "wf_registry full_registry \<and> -1 \<notin> set (client_fds full_registry) \<and>
   200 \<notin> set (client_fds full_registry) \<and>
   creg_register full_registry 200 = full_registry \<and>
   200 \<notin> set (creg_shutdown_all (creg_register full_registry 200)) \<and>
   creg_wait_for_empty (creg_register full_registry 200) = None \<and>
   creg_unregister full_registry 200 = full_registry \<and>
   creg_unregister (full_registry\<lparr> count := 0 \<rparr>) 200 = full_registry\<lparr> count := 0, empty := 1 \<rparr>"
proof -
  have wf: "wf_registry full_registry"
    by (simp add: wf_registry_def full_registry_def MAX_CLIENTS_def)
  have free: "-1 \<notin> set (client_fds full_registry)"
    by (auto simp: full_registry_def)
  have new: "200 \<notin> set (client_fds full_registry)"
    by (auto simp: full_registry_def)
  have wf0: "wf_registry (full_registry\<lparr> count := 0 \<rparr>)"
    using wf by (simp add: wf_registry_def)
  have new0: "200 \<notin> set (client_fds (full_registry\<lparr> count := 0 \<rparr>))"
    using new by simp
  have wait: "creg_wait_for_empty full_registry = None"
    by (simp add: creg_wait_for_empty_def full_registry_def)
  have cnt: "count full_registry = 128"
    by (simp add: full_registry_def)
  have reg: "creg_register full_registry 200 = full_registry"
    and shut: "200 \<notin> set (creg_shutdown_all (creg_register full_registry 200))"
    using creg_register_full_untracked [OF wf, of 200] free new by blast+
  have unreg: "creg_unregister full_registry 200 = full_registry"
    using creg_register_full_untracked [OF wf, of 200] new cnt by simp
  have unreg0: "creg_unregister (full_registry\<lparr> count := 0 \<rparr>) 200
                  = full_registry\<lparr> count := 0, empty := 1 \<rparr>"
    using creg_register_full_untracked [OF wf0, of 200] new0
    by (simp add: full_registry_def)
  have wait': "creg_wait_for_empty (creg_register full_registry 200) = None"
    using reg wait by simp
  from wf free new reg shut unreg unreg0 wait' show ?thesis
    by blast
qed


section \<open>Properties of the wire protocol\<close>


lemma cat16_bytes: "cat16 (ucast x) (ucast (drop_bit 8 x)) = x"
  unfolding cat16_def by (rule bit_word_eqI) (auto simp: bit_simps)

lemma cat16_lo: "ucast (cat16 b0 b1) = b0"
  unfolding cat16_def by (rule bit_word_eqI) (auto simp: bit_simps dest: bit_imp_le_length)

lemma cat16_hi: "ucast (drop_bit 8 (cat16 b0 b1)) = b1"
  unfolding cat16_def by (rule bit_word_eqI) (auto simp: bit_simps dest: bit_imp_le_length)

lemma cat32_bytes:
  "cat32 (ucast x) (ucast (drop_bit 8 x)) (ucast (drop_bit 16 x)) (ucast (drop_bit 24 x)) = x"
  unfolding cat32_def
proof (rule bit_word_eqI)
  fix n assume "n < LENGTH(32)"
  then consider "n < 8" | "8 \<le> n" "n < 16" | "16 \<le> n" "n < 24" | "24 \<le> n" "n < 32"
    by fastforce
  then show "bit (ucast (ucast x :: byte) OR push_bit 8 (ucast (ucast (drop_bit 8 x) :: byte)) OR
       push_bit 16 (ucast (ucast (drop_bit 16 x) :: byte)) OR
       push_bit 24 (ucast (ucast (drop_bit 24 x) :: byte)) :: 32 word) n = bit x n"
    by cases (auto simp: bit_simps)
qed

lemma cat32_b0: "ucast (cat32 b0 b1 b2 b3) = b0"
  unfolding cat32_def by (rule bit_word_eqI) (auto simp: bit_simps dest: bit_imp_le_length)

lemma cat32_b1: "ucast (drop_bit 8 (cat32 b0 b1 b2 b3)) = b1"
  unfolding cat32_def by (rule bit_word_eqI) (auto simp: bit_simps dest: bit_imp_le_length)

lemma cat32_b2: "ucast (drop_bit 16 (cat32 b0 b1 b2 b3)) = b2"
  unfolding cat32_def by (rule bit_word_eqI) (auto simp: bit_simps dest: bit_imp_le_length)

lemma cat32_b3: "ucast (drop_bit 24 (cat32 b0 b1 b2 b3)) = b3"
  unfolding cat32_def by (rule bit_word_eqI) (auto simp: bit_simps dest: bit_imp_le_length)

lemmas cat_simps = cat16_bytes cat16_lo cat16_hi cat32_bytes cat32_b0 cat32_b1 cat32_b2 cat32_b3

lemma ntohs_htons: "ntohs e (htons e x) = x"
  by (cases e) (simp_all add: ntohs_def htons_def cat_simps)

lemma ntohl_htonl: "ntohl e (htonl e x) = x"
  by (cases e) (simp_all add: ntohl_def htonl_def cat_simps)

lemma mem16_htons: "mem16 e (htons e x) = [ucast (drop_bit 8 x), ucast x]"
  by (cases e) (simp_all add: mem16_def htons_def cat_simps)

lemma mem32_htonl:
  "mem32 e (htonl e x) = [ucast (drop_bit 24 x), ucast (drop_bit 16 x), ucast (drop_bit 8 x), ucast x]"
  by (cases e) (simp_all add: mem32_def htonl_def cat_simps)

lemma val16_wire: "ntohs e (val16 e (ucast (drop_bit 8 x)) (ucast x)) = x"
  by (cases e) (simp_all add: ntohs_def htons_def val16_def cat_simps)

lemma val32_wire:
  "ntohl e (val32 e (ucast (drop_bit 24 x)) (ucast (drop_bit 16 x)) (ucast (drop_bit 8 x)) (ucast x)) = x"
  by (cases e) (simp_all add: ntohl_def htonl_def val32_def cat_simps)


lemma header_bytes_wire:
  "header_bytes e pad (net_copy e p) =
     [type p, fst pad, ucast (drop_bit 8 (size' p)), ucast (size' p),
      param1 p, param2 p, param3 p, snd pad,
      ucast (drop_bit 24 (timestamp_sec p)), ucast (drop_bit 16 (timestamp_sec p)),
      ucast (drop_bit 8 (timestamp_sec p)), ucast (timestamp_sec p),
      ucast (drop_bit 24 (timestamp_nsec p)), ucast (drop_bit 16 (timestamp_nsec p)),
      ucast (drop_bit 8 (timestamp_nsec p)), ucast (timestamp_nsec p)]"
  by (simp add: header_bytes_def net_copy_def mem16_htons mem32_htonl)

lemma header_bytes_wire_header: "header_bytes e pad (net_copy e p) = wire_header pad p"
  by (simp add: header_bytes_wire wire_header_def)

lemma decode_header_wire: "decode_header e (header_bytes e pad (net_copy e p)) = p"
  by (simp add: header_bytes_wire decode_header_def val16_wire val32_wire)

lemma decode_header_wire_append:
  "decode_header e (take 16 (header_bytes e pad (net_copy e p) @ rest)) = p"
  using decode_header_wire [of e pad p] by (simp add: header_bytes_wire)

lemma write_all_written: "write_all fd buf = (0, fd') \<Longrightarrow> written fd' = written fd @ buf"
proof (induction fd buf arbitrary: fd' rule: write_all.induct)
  case (1 fd buf)
  show ?case
  proof (cases "length buf > 0")
    case False
    with "1.prems" show ?thesis by (simp add: write_all.simps)
  next
    case True
    obtain n fd1 where wc: "write_call fd buf = (n, fd1)" by (cases "write_call fd buf")
    with True "1.prems" have pos: "\<not> n \<le> 0" and rest: "write_all fd1 (drop (nat n) buf) = (0, fd')"
      by (auto simp: write_all.simps [of fd buf] split: if_splits)
    have w1: "written fd1 = written fd @ take (nat n) buf"
      using wc pos by (auto simp: write_call_def split: list.splits if_splits)
    have "written fd' = written fd1 @ drop (nat n) buf"
      using True wc pos rest by (intro "1.IH") auto
    with w1 show ?thesis by simp
  qed
qed

lemma read_all_0: "read_all fd 0 buf = Some (buf, fd)"
  by (simp add: read_all.simps)

lemma read_all_enough:
  "n \<le> length (stream_bytes fd) \<Longrightarrow>
     \<exists>fd'. read_all fd n buf = Some (buf @ take n (stream_bytes fd), fd') \<and>
           stream_bytes fd' = drop n (stream_bytes fd)"
proof (induction fd arbitrary: n buf)
  case Nil
  then show ?case by (simp add: read_all_0)
next
  case (Cons ev rest)
  show ?case
  proof (cases "n = 0")
    case True
    then show ?thesis by (simp add: read_all_0)
  next
    case False
    then have n: "n > 0" by simp
    show ?thesis
    proof (cases ev)
      case (RBytes bs)
      with Cons.prems n have ne: "bs \<noteq> []" by (auto split: if_splits)
      show ?thesis
      proof (cases "length bs \<le> n")
        case True
        then have "n - length bs \<le> length (stream_bytes rest)"
          using Cons.prems RBytes ne by simp
        from Cons.IH [OF this, of "buf @ bs"] obtain fd' where
          "read_all rest (n - length bs) (buf @ bs)
             = Some ((buf @ bs) @ take (n - length bs) (stream_bytes rest), fd')"
          "stream_bytes fd' = drop (n - length bs) (stream_bytes rest)"
          by blast
        then show ?thesis
          using True n ne RBytes by (subst read_all.simps) simp
      next
        case False
        then have "drop n bs \<noteq> []" by simp
        then show ?thesis
          using False n ne RBytes by (subst read_all.simps) (simp add: read_all_0)
      qed
    next
      case REof
      with Cons.prems n show ?thesis by simp
    next
      case (RErr e)
      with Cons.prems n have e: "e = EINTR" by (auto split: if_splits)
      then have "n \<le> length (stream_bytes rest)" using Cons.prems RErr by simp
      from Cons.IH [OF this, of buf] show ?thesis
        using n RErr e by (subst read_all.simps) simp
    qed
  qed
qed

lemma read_all_short:
  "length (stream_bytes fd) < n \<Longrightarrow> read_all fd n buf = None"
proof (induction fd arbitrary: n buf)
  case Nil
  then show ?case by (subst read_all.simps) simp
next
  case (Cons ev rest)
  then have n: "n > 0" by simp
  show ?case
  proof (cases ev)
    case (RBytes bs)
    show ?thesis
    proof (cases "bs = []")
      case True
      then show ?thesis using n RBytes by (subst read_all.simps) simp
    next
      case False
      then have len: "length bs + length (stream_bytes rest) < n"
        using Cons.prems RBytes by simp
      then have "read_all rest (n - length bs) (buf @ bs) = None"
        by (intro Cons.IH) simp
      then show ?thesis
        using n len False RBytes by (subst read_all.simps) simp
    qed
  next
    case REof
    then show ?thesis using n by (subst read_all.simps) simp
  next
    case (RErr e)
    show ?thesis
    proof (cases "e = EINTR")
      case True
      then have "read_all rest n buf = None"
        using Cons.prems RErr by (intro Cons.IH) simp
      then show ?thesis using n RErr True by (subst read_all.simps) simp
    next
      case False
      then show ?thesis using n RErr by (subst read_all.simps) simp
    qed
  qed
qed

lemma stream_bytes_no_EINTR:
  "stream_bytes (filter (\<lambda>ev. ev \<noteq> RErr EINTR) fd) = stream_bytes fd"
  by (induction fd rule: stream_bytes.induct) auto

lemma decode_header_alt:
  "\<lparr> type = type (header_of_bytes e hb), size' = ntohs e (size' (header_of_bytes e hb)),
     param1 = param1 (header_of_bytes e hb), param2 = param2 (header_of_bytes e hb),
     param3 = param3 (header_of_bytes e hb),
     timestamp_sec = ntohl e (timestamp_sec (header_of_bytes e hb)),
     timestamp_nsec = ntohl e (timestamp_nsec (header_of_bytes e hb)) \<rparr> = decode_header e hb"
  by (simp add: header_of_bytes_def decode_header_def)

lemma proto_recv_packet_alt:
  "proto_recv_packet e malloc_ok fd =
     (case read_all fd sizeof_MZW_PACKET [] of
        None \<Rightarrow> None
      | Some (hb, fd1) \<Rightarrow>
          if size' (decode_header e hb) > 0 then
            (if \<not> malloc_ok then None
             else case read_all fd1 (unat (size' (decode_header e hb))) [] of
                    None \<Rightarrow> None
                  | Some (pb, fd2) \<Rightarrow> Some (decode_header e hb, Some pb, fd2))
          else Some (decode_header e hb, None, fd1))"
  unfolding proto_recv_packet_def Let_def decode_header_alt ..

lemma proto_recv_packet_decode:
  "received (proto_recv_packet e malloc_ok fd) = decode_frame e malloc_ok (stream_bytes fd)"
proof (cases "length (stream_bytes fd) < 16")
  case True
  then have "read_all fd sizeof_MZW_PACKET [] = None"
    by (intro read_all_short) (simp add: sizeof_MZW_PACKET_def)
  then show ?thesis
    using True by (simp add: proto_recv_packet_alt decode_frame_def received_def)
next
  case False
  then have "16 \<le> length (stream_bytes fd)" by simp
  from read_all_enough [OF this, of "[]"] obtain fd1 where
    hdr: "read_all fd sizeof_MZW_PACKET [] = Some (take 16 (stream_bytes fd), fd1)"
    and rest: "stream_bytes fd1 = drop 16 (stream_bytes fd)"
    by (auto simp: sizeof_MZW_PACKET_def)
  let ?pkt = "decode_header e (take 16 (stream_bytes fd))"
  let ?n = "unat (size' ?pkt)"
  have pos: "(size' ?pkt > 0) = (?n \<noteq> 0)"
    by (simp add: word_greater_zero_iff unat_eq_0)
  show ?thesis
  proof (cases "?n = 0")
    case True
    then show ?thesis
      using False hdr pos
      by (simp add: proto_recv_packet_alt decode_frame_def received_def Let_def)
  next
    case n: False
    show ?thesis
    proof (cases "malloc_ok \<and> 16 + ?n \<le> length (stream_bytes fd)")
      case True
      then have "?n \<le> length (stream_bytes fd1)" using rest by auto
      from read_all_enough [OF this, of "[]"] obtain fd2 where
        "read_all fd1 ?n [] = Some (take ?n (stream_bytes fd1), fd2)"
        by auto
      then show ?thesis
        using False hdr pos n True rest
        by (simp add: proto_recv_packet_alt decode_frame_def received_def Let_def)
    next
      case short: False
      have "malloc_ok \<Longrightarrow> read_all fd1 ?n [] = None"
        using short rest False by (intro read_all_short) auto
      then show ?thesis
        using False hdr pos n short
        by (auto simp: proto_recv_packet_alt decode_frame_def received_def Let_def)
    qed
  qed
qed


lemma write_all_ok:
  "write_all fd buf = (rc, fd') \<Longrightarrow> \<not> rc < 0 \<Longrightarrow> rc = 0 \<and> written fd' = written fd @ buf"
proof (induction fd buf arbitrary: fd' rule: write_all.induct)
  case (1 fd buf)
  show ?case
  proof (cases "length buf > 0")
    case False
    with "1.prems" show ?thesis by (simp add: write_all.simps)
  next
    case True
    obtain n fd1 where wc: "write_call fd buf = (n, fd1)" by (cases "write_call fd buf")
    with True "1.prems" have pos: "\<not> n \<le> 0" and rest: "write_all fd1 (drop (nat n) buf) = (rc, fd')"
      by (auto simp: write_all.simps [of fd buf] split: if_splits)
    have w1: "written fd1 = written fd @ take (nat n) buf"
      using wc pos by (auto simp: write_call_def split: list.splits if_splits)
    have "rc = 0 \<and> written fd' = written fd1 @ drop (nat n) buf"
      using True wc pos rest "1.prems"(2) by (intro "1.IH") auto
    with w1 show ?thesis by simp
  qed
qed

lemma length_header_bytes: "length (header_bytes e pad (net_copy e p)) = 16"
  by (simp add: header_bytes_wire)

lemma decode_frame_wire:
  assumes "length payload = unat (size' p)"
  shows "decode_frame e True (header_bytes e pad (net_copy e p) @ payload)
           = Some (p, if size' p > 0 then Some payload else None)"
proof -
  have pos: "(size' p > 0) = (unat (size' p) \<noteq> 0)"
    by (simp add: word_greater_zero_iff unat_eq_0)
  show ?thesis
    using assms pos
    by (simp add: decode_frame_def length_header_bytes decode_header_wire Let_def)
qed

text \<open>
  Claim C4. For every frame F (a header and, when its size is not 0, a payload of that many
  bytes) that \<^verbatim>\<open>proto_send_packet\<close> sends with success, \<^verbatim>\<open>proto_recv_packet\<close> run on the
  bytes sent returns F again, except for the two timestamps, which are those the sender
  stamped (the clock reading): the type and the three params are unchanged, the size and
  the stamped timestamps come back with their values, and the payload comes back byte for
  byte when the size is not 0. On the wire the header is in network byte order, whatever the
  byte order of the host: the high byte of the size is at offset 2 and its low byte at
  offset 3.
\<close>

theorem proto_round_trip:
  assumes send: "proto_send_packet e (Some (tv_sec, tv_nsec)) pad fd pkt data = Some (0, pkt', fd')"
    and frame: "frame_ok pkt data"
    and wire: "stream_bytes rd = drop (length (written fd)) (written fd')"
  shows "pkt' = pkt\<lparr> timestamp_sec := word_of_int tv_sec, timestamp_nsec := word_of_int tv_nsec \<rparr> \<and>
         received (proto_recv_packet e True rd)
           = Some (pkt', if size' pkt > 0 then data else None) \<and>
         take 16 (stream_bytes rd) = wire_header pad pkt' \<and>
         stream_bytes rd ! 2 = ucast (drop_bit 8 (size' pkt)) \<and>
         stream_bytes rd ! 3 = ucast (size' pkt)"
proof -
  let ?pkt1 = "pkt\<lparr> timestamp_sec := word_of_int tv_sec, timestamp_nsec := word_of_int tv_nsec \<rparr>"
  define C where "C = pkt\<lparr> size' := htons e (size' pkt),
                              timestamp_sec := htonl e (word_of_int tv_sec),
                              timestamp_nsec := htonl e (word_of_int tv_nsec) \<rparr>"
  have C: "C = net_copy e ?pkt1"
    by (simp add: C_def net_copy_def)
  obtain rc fd1 where w1: "write_all fd (header_bytes e pad C) = (rc, fd1)"
    by (cases "write_all fd (header_bytes e pad C)")
  from send w1 have main:
    "\<not> rc < 0 \<and> pkt' = ?pkt1 \<and>
     (if size' pkt > 0 \<and> data \<noteq> None
      then \<not> length (the data) < unat (size' pkt) \<and>
           (\<exists>rc2. \<not> rc2 < 0 \<and> write_all fd1 (take (unat (size' pkt)) (the data)) = (rc2, fd'))
      else fd' = fd1)"
    unfolding C_def
    by (auto simp: proto_send_packet_def Let_def split: if_splits prod.splits)
  then have pkt': "pkt' = ?pkt1" by simp
  have hdr: "written fd1 = written fd @ header_bytes e pad C"
    using write_all_ok [OF w1] main by simp
  define payload where "payload = (if size' pkt > 0 then the data else [])"
  have len: "length payload = unat (size' ?pkt1)"
  proof (cases "size' pkt > 0")
    case True
    with frame show ?thesis
      by (cases data) (auto simp: frame_ok_def payload_def)
  next
    case False
    then show ?thesis by (simp add: payload_def word_greater_zero_iff)
  qed
  have data: "data = Some payload" if "size' pkt > 0"
    using that frame by (cases data) (auto simp: frame_ok_def payload_def)
  have all: "written fd' = written fd @ header_bytes e pad C @ payload"
  proof (cases "size' pkt > 0")
    case True
    with data main obtain rc2 where
      "\<not> rc2 < 0" "write_all fd1 (take (unat (size' pkt)) payload) = (rc2, fd')"
      by auto
    from write_all_ok [OF this(2) this(1)] have "written fd' = written fd1 @ payload"
      using len by simp
    with hdr show ?thesis by simp
  next
    case False
    with main hdr show ?thesis by (simp add: payload_def)
  qed
  then have sb: "stream_bytes rd = header_bytes e pad (net_copy e ?pkt1) @ payload"
    using wire by (simp add: C)
  have dec: "received (proto_recv_packet e True rd)
               = Some (?pkt1, if size' ?pkt1 > 0 then Some payload else None)"
    unfolding proto_recv_packet_decode sb using len by (rule decode_frame_wire)
  have res: "received (proto_recv_packet e True rd)
               = Some (pkt', if size' pkt > 0 then data else None)"
    using dec data pkt' by auto
  have off: "stream_bytes rd ! 2 = ucast (drop_bit 8 (size' pkt))"
            "stream_bytes rd ! 3 = ucast (size' pkt)"
    unfolding sb by (simp_all add: header_bytes_wire)
  have wh: "take 16 (stream_bytes rd) = wire_header pad pkt'"
    unfolding sb pkt' by (simp add: header_bytes_wire_header) (simp add: wire_header_def)
  from pkt' res wh off show ?thesis by blast
qed

lemma demo_send:
  "proto_send_packet LittleEndian (Some (5, 7)) (0, 0) demo_out_fd demo_pkt (Some [104, 105])
     = Some (0, demo_pkt\<lparr> timestamp_sec := 5, timestamp_nsec := 7 \<rparr>,
             \<lparr> written = demo_wire, write_results = [] \<rparr>)"
  by (simp add: proto_send_packet_def demo_pkt_def demo_out_fd_def demo_wire_def Let_def
      header_bytes_def mem16_def mem32_def htons_def htonl_def cat16_def cat32_def
      write_all.simps write_call_def)

theorem proto_round_trip_witness:
  "frame_ok demo_pkt (Some [104, 105]) \<and>
   proto_send_packet LittleEndian (Some (5, 7)) (0, 0) demo_out_fd demo_pkt (Some [104, 105])
     = Some (0, demo_pkt\<lparr> timestamp_sec := 5, timestamp_nsec := 7 \<rparr>,
             \<lparr> written = demo_wire, write_results = [] \<rparr>) \<and>
   stream_bytes demo_reads = demo_wire \<and>
   received (proto_recv_packet LittleEndian True demo_reads)
     = Some (demo_pkt\<lparr> timestamp_sec := 5, timestamp_nsec := 7 \<rparr>, Some [104, 105]) \<and>
   stream_bytes demo_reads ! 2 = 0 \<and> stream_bytes demo_reads ! 3 = 2"
proof -
  have frame: "frame_ok demo_pkt (Some [104, 105])"
    by (simp add: frame_ok_def demo_pkt_def)
  have sb: "stream_bytes demo_reads = demo_wire"
    by (simp add: demo_reads_def demo_wire_def)
  have wire: "stream_bytes demo_reads
                = drop (length (written demo_out_fd)) (written \<lparr> written = demo_wire, write_results = [] \<rparr>)"
    by (simp add: sb demo_out_fd_def)
  have sz: "size' demo_pkt = 2" by (simp add: demo_pkt_def)
  from proto_round_trip [OF demo_send frame wire] frame demo_send sb
  show ?thesis by (simp add: sz)
qed



lemma received_None: "(received r = None) = (r = None)"
  by (simp add: received_def)

lemma decode_frame_None:
  "(decode_frame e malloc_ok sb = None) =
     (cut_short e sb \<or> (announces_payload e sb \<and> \<not> malloc_ok))"
proof -
  have pos: "(size' p > 0) = (unat (size' p) \<noteq> 0)" for p :: "byte MZW_PACKET"
    by (simp add: word_greater_zero_iff unat_eq_0)
  show ?thesis
    by (auto simp: decode_frame_def cut_short_def frame_length_def announces_payload_def
        Let_def pos)
qed

lemma proto_recv_packet_None:
  "(proto_recv_packet e malloc_ok fd = None)
     = (cut_short e (stream_bytes fd) \<or>
        (announces_payload e (stream_bytes fd) \<and> \<not> malloc_ok))"
proof -
  have "(proto_recv_packet e malloc_ok fd = None)
          = (decode_frame e malloc_ok (stream_bytes fd) = None)"
    using proto_recv_packet_decode [of e malloc_ok fd] received_None by metis
  then show ?thesis
    by (simp add: decode_frame_None)
qed

lemma proto_recv_packet_no_EINTR:
  "received (proto_recv_packet e malloc_ok fd)
     = received (proto_recv_packet e malloc_ok (filter (\<lambda>ev. ev \<noteq> RErr EINTR) fd))"
  by (simp add: proto_recv_packet_decode stream_bytes_no_EINTR)

text \<open>
  Claim C5. For every sequence of read results, \<^verbatim>\<open>proto_recv_packet\<close> passes over the reads
  that fail with \<^verbatim>\<open>EINTR\<close>: it returns what it returns on the same sequence without them,
  so an interruption never reaches the caller as an error. It returns an error exactly when
  the frame is cut short: a read yields the end of the stream, or a failure other than
  \<^verbatim>\<open>EINTR\<close>, before the header and the payload it announces are all read. The buffer for
  the payload is allocated (\<^verbatim>\<open>malloc\<close> is not a read).
\<close>

theorem proto_recv_packet_errors:
  "received (proto_recv_packet e True fd)
     = received (proto_recv_packet e True (filter (\<lambda>ev. ev \<noteq> RErr EINTR) fd)) \<and>
   (proto_recv_packet e True fd = None) = cut_short e (stream_bytes fd)"
  using proto_recv_packet_no_EINTR [of e True fd] proto_recv_packet_None [of e True fd]
  by simp

lemma demo_stream: "stream_bytes demo_reads = demo_wire"
  by (simp add: demo_reads_def demo_wire_def)

lemma demo_header:
  "decode_header LittleEndian (take 16 demo_wire)
     = \<lparr> type = 1, size' = 2, param1 = 65, param2 = 0, param3 = 0,
         timestamp_sec = 5, timestamp_nsec = 7 \<rparr>"
  by (simp add: decode_header_def demo_wire_def ntohs_def ntohl_def htons_def htonl_def
      val16_def val32_def cat16_def cat32_def)

text \<open>
  On \<^verbatim>\<open>demo_reads\<close>, where the second read is interrupted, the frame is received as it is
  from the two reads of data alone; when the stream ends after the interrupted read, in
  the middle of the header, the call returns an error; so it does when the third read fails
  with \<^verbatim>\<open>ECONNRESET\<close>.
\<close>

theorem proto_recv_packet_errors_witness:
  "received (proto_recv_packet LittleEndian True demo_reads)
     = received (proto_recv_packet LittleEndian True
                  [RBytes [1, 0, 0, 2, 65], RBytes [0, 0, 0, 0, 0, 0, 5, 0, 0, 0, 7, 104, 105]]) \<and>
   proto_recv_packet LittleEndian True demo_reads \<noteq> None \<and>
   proto_recv_packet LittleEndian True (take 2 demo_reads) = None \<and>
   proto_recv_packet LittleEndian True (take 2 demo_reads @ [RErr ECONNRESET]) = None"
proof -
  have b: "\<not> cut_short LittleEndian (stream_bytes demo_reads)"
    by (simp add: demo_stream cut_short_def frame_length_def demo_header) (simp add: demo_wire_def)
  have s: "cut_short LittleEndian (stream_bytes (take 2 demo_reads))"
    by (simp add: demo_reads_def cut_short_def frame_length_def)
  have r: "cut_short LittleEndian (stream_bytes (take 2 demo_reads @ [RErr ECONNRESET]))"
    by (simp add: demo_reads_def cut_short_def frame_length_def)
  have f: "filter (\<lambda>ev. ev \<noteq> RErr EINTR) demo_reads
             = [RBytes [1, 0, 0, 2, 65], RBytes [0, 0, 0, 0, 0, 0, 5, 0, 0, 0, 7, 104, 105]]"
    by (simp add: demo_reads_def)
  show ?thesis
    using proto_recv_packet_errors [of LittleEndian demo_reads]
      proto_recv_packet_errors [of LittleEndian "take 2 demo_reads"]
      proto_recv_packet_errors [of LittleEndian "take 2 demo_reads @ [RErr ECONNRESET]"] b s r
    by (simp add: f)
qed


section \<open>Properties of the player module\<close>

lemma on_map_fields [simp]:
  "heap (on_map s e) = heap s" "player_map (on_map s e) = player_map s"
  "maze_st (on_map s e) = maze_st s" "sent (on_map s e) = sent s"
  "registry (on_map s e) = registry s" "closed (on_map s e) = closed s"
  "calls (on_map s e) = calls s" "shut_down (on_map s e) = shut_down s"
  "fresh (on_map s e) = fresh s" "rand_seq (on_map s e) = rand_seq s"
  "rand_calls (on_map s e) = rand_calls s" "uninit_view (on_map s e) = uninit_view s"
  "map_log (on_map s e) = map_log s @ e"
  by (simp_all add: on_map_def)

lemma on_map_on_map [simp]: "on_map (on_map s e) e' = on_map s (e @ e')"
  by (simp add: on_map_def)



lemma maze_set_player_occupied:
  "\<not> out_of_bounds m r c \<Longrightarrow> \<not> IS_EMPTY (maze_at m r c) \<Longrightarrow> maze_set_player m a r c = None"
  by (simp add: maze_set_player_def out_of_bounds_def)

lemma maze_set_player_random_loop_full:
  assumes "maze_rows m > 0" "maze_cols m > 0"
    and "\<forall>r c. \<not> out_of_bounds m r c \<longrightarrow> \<not> IS_EMPTY (maze_at m r c)"
  shows "maze_set_player_random_loop m rnd k a i = Some (None, m, k + 2 * (max_attempts - i))"
  using assms
proof (induction m rnd k a i rule: maze_set_player_random_loop.induct)
  case (1 m rnd k a i)
  show ?case
  proof (cases "i < max_attempts")
    case False
    then show ?thesis by (subst maze_set_player_random_loop.simps) simp
  next
    case True
    let ?r = "int (rnd k) mod \<bar>maze_rows m\<bar>" and ?c = "int (rnd (k + 1)) mod \<bar>maze_cols m\<bar>"
    have "\<not> out_of_bounds m ?r ?c"
      using "1.prems"(1,2) by (auto simp: out_of_bounds_def not_less not_le)
    then have none: "maze_set_player m a ?r ?c = None"
      using "1.prems"(3) by (intro maze_set_player_occupied) auto
    have nz: "\<not> (maze_rows m = 0 \<or> maze_cols m = 0)" using "1.prems"(1,2) by simp
    have "maze_set_player_random_loop m rnd (k + 2) a (i + 1)
            = Some (None, m, k + 2 + 2 * (max_attempts - (i + 1)))"
      using True nz none "1.prems" by (intro "1.IH") auto
    then show ?thesis
      using True nz none by (subst maze_set_player_random_loop.simps) (simp add: Let_def)
  qed
qed

lemma player_reset_placement_fails:
  assumes "heap s p = Some pl"
    and "maze_remove_player (maze_st s) (avatar pl) (row pl) (col pl) = Some m1"
    and "maze_set_player_random m1 (rand_seq s) (rand_calls s) (avatar pl) = Some (None, m2, k2)"
  shows "player_reset s p = Some (s\<lparr> maze_st := m2, rand_calls := k2 \<rparr>)"
  using assms by (simp add: player_reset_def)

lemma full_maze_full:
  "\<not> out_of_bounds full_maze r c \<Longrightarrow> \<not> IS_EMPTY (maze_at full_maze r c)"
proof -
  assume "\<not> out_of_bounds full_maze r c"
  then have "r = 0 \<or> r = 1" "c = 0 \<or> c = 1"
    by (auto simp: out_of_bounds_def full_maze_def)
  then show ?thesis
    by (auto simp: maze_at_def full_maze_def IS_EMPTY_def EMPTY_def)
qed

text \<open>
  Claim C2, run on the code. In \<^verbatim>\<open>limbo_server\<close> the maze has no empty cell and alice, with
  a score of 3, is reset. The random placement fails; \<^verbatim>\<open>player_reset\<close> returns with the
  table, alice's position (1,1) and every packet list as they were, and it does not log her
  out. Her score is still 3: the function returns before it reaches the statement that sets
  the score to 0.
\<close>

theorem player_reset_limbo_keeps_score:
  "player_reset limbo_server 10 = Some (limbo_server\<lparr> rand_calls := 2000 \<rparr>) \<and>
   map_option score (heap (limbo_server\<lparr> rand_calls := 2000 \<rparr>) 10) = Some 3 \<and>
   map_option (\<lambda>pl. (row pl, col pl)) (heap (limbo_server\<lparr> rand_calls := 2000 \<rparr>) 10) = Some (1, 1) \<and>
   player_map (limbo_server\<lparr> rand_calls := 2000 \<rparr>) 65 = Some 10"
proof -
  have h: "heap limbo_server 10 = Some alice"
    by (simp add: limbo_server_def)
  have al: "avatar alice = CHR ''A''" "row alice = 1" "col alice = 1" "score alice = 3"
    by (simp_all add: alice_def)
  have m: "maze_st limbo_server = full_maze" "rand_calls limbo_server = 0"
    by (simp_all add: limbo_server_def demo_server_def)
  have rm: "maze_remove_player full_maze (CHR ''A'') 1 1 = Some full_maze"
    by (simp add: maze_remove_player_def out_of_bounds_def maze_at_def full_maze_def)
  have "maze_set_player_random full_maze rnd 0 a = Some (None, full_maze, 2000)" for rnd a
    unfolding maze_set_player_random_def
    using maze_set_player_random_loop_full [of full_maze rnd 0 a 0] full_maze_full
    by (simp add: full_maze_def max_attempts_def)
  then have "player_reset limbo_server 10
               = Some (limbo_server\<lparr> maze_st := full_maze, rand_calls := 2000 \<rparr>)"
    using h al m rm by (intro player_reset_placement_fails [where pl = alice and ?m1.0 = full_maze]) simp_all
  moreover have "limbo_server\<lparr> maze_st := full_maze, rand_calls := 2000 \<rparr>
                   = limbo_server\<lparr> rand_calls := 2000 \<rparr>"
    by (simp add: limbo_server_def)
  ultimately show ?thesis
    using h al by (simp add: limbo_server_def demo_server_def)
qed














section \<open>Properties of the shutdown\<close>

lemma player_unref_released:
  "heap s q = Some pl \<Longrightarrow> player_unref s q = Some (s\<lparr> heap := (heap s)(q := released pl) \<rparr>)"
  by (simp add: player_unref_def released_def)

lemma unref_loop:
  assumes "\<forall>j q. i \<le> j \<and> j < MAX_PLAYERS \<and> player_map s j = Some q
             \<longrightarrow> (\<exists>pl. heap s q = Some pl \<and> of_char (avatar pl) = j)"
  shows "for_each_player (\<lambda>q s'. player_unref s' q) i s
           = Some (s\<lparr> heap := (\<lambda>q. if (\<exists>j. i \<le> j \<and> j < MAX_PLAYERS \<and> player_map s j = Some q)
                                     then Option.bind (heap s q) released else heap s q) \<rparr>)"
  using assms
proof (induction "MAX_PLAYERS - i" arbitrary: i s)
  case 0
  then have ge: "\<not> i < MAX_PLAYERS" by simp
  then have "(\<lambda>q. if (\<exists>j. i \<le> j \<and> j < MAX_PLAYERS \<and> player_map s j = Some q)
                   then Option.bind (heap s q) released else heap s q) = heap s"
    by (intro ext) auto
  with ge show ?case by (subst for_each_player.simps) simp
next
  case (Suc n)
  then have lt: "i < MAX_PLAYERS" and n: "n = MAX_PLAYERS - (i + 1)" by simp_all
  show ?case
  proof (cases "player_map s i")
    case None
    have eq: "(\<exists>j. i \<le> j \<and> j < MAX_PLAYERS \<and> player_map s j = Some q)
                = (\<exists>j. i + 1 \<le> j \<and> j < MAX_PLAYERS \<and> player_map s j = Some q)" for q
    proof
      assume "\<exists>j. i \<le> j \<and> j < MAX_PLAYERS \<and> player_map s j = Some q"
      then obtain j where j: "i \<le> j" "j < MAX_PLAYERS" "player_map s j = Some q" by blast
      with None have "j \<noteq> i" by auto
      with j show "\<exists>j. i + 1 \<le> j \<and> j < MAX_PLAYERS \<and> player_map s j = Some q"
        by (intro exI [of _ j]) simp
    next
      assume "\<exists>j. i + 1 \<le> j \<and> j < MAX_PLAYERS \<and> player_map s j = Some q"
      then show "\<exists>j. i \<le> j \<and> j < MAX_PLAYERS \<and> player_map s j = Some q"
        by (meson add_leD1)
    qed
    have "for_each_player (\<lambda>q s'. player_unref s' q) (i + 1) s
           = Some (s\<lparr> heap := (\<lambda>q. if (\<exists>j. i + 1 \<le> j \<and> j < MAX_PLAYERS \<and> player_map s j = Some q)
                                     then Option.bind (heap s q) released else heap s q) \<rparr>)"
      using n Suc.prems by (intro Suc.hyps(1)) auto
    then show ?thesis
      using lt None eq by (subst for_each_player.simps) simp
  next
    case (Some q0)
    with Suc.prems lt obtain pl0 where h0: "heap s q0 = Some pl0" and a0: "of_char (avatar pl0) = i"
      by blast
    let ?s1 = "s\<lparr> heap := (heap s)(q0 := released pl0) \<rparr>"
    have later: "q \<noteq> q0" if "i + 1 \<le> j" "j < MAX_PLAYERS" "player_map s j = Some q" for j q
    proof
      assume "q = q0"
      with that have "i \<le> j \<and> j < MAX_PLAYERS \<and> player_map s j = Some q0" by simp
      with Suc.prems obtain pl where "heap s q0 = Some pl" "of_char (avatar pl) = j" by blast
      with h0 have "of_char (avatar pl0) = j" by simp
      with a0 that(1) show False by simp
    qed
    have P1: "\<forall>j q. i + 1 \<le> j \<and> j < MAX_PLAYERS \<and> player_map ?s1 j = Some q
             \<longrightarrow> (\<exists>pl. heap ?s1 q = Some pl \<and> of_char (avatar pl) = j)"
    proof (intro allI impI)
      fix j q
      assume a: "i + 1 \<le> j \<and> j < MAX_PLAYERS \<and> player_map ?s1 j = Some q"
      then have ne: "q \<noteq> q0" using later [of j q] by simp
      from a have "i \<le> j \<and> j < MAX_PLAYERS \<and> player_map s j = Some q" by simp
      with Suc.prems obtain pl where "heap s q = Some pl" "of_char (avatar pl) = j" by blast
      with ne show "\<exists>pl. heap ?s1 q = Some pl \<and> of_char (avatar pl) = j" by simp
    qed
    have ih: "for_each_player (\<lambda>q s'. player_unref s' q) (i + 1) ?s1
           = Some (?s1\<lparr> heap := (\<lambda>q. if (\<exists>j. i + 1 \<le> j \<and> j < MAX_PLAYERS \<and> player_map ?s1 j = Some q)
                                     then Option.bind (heap ?s1 q) released else heap ?s1 q) \<rparr>)"
      using n P1 by (intro Suc.hyps(1)) auto
    have fe: "(\<lambda>q. if (\<exists>j. i + 1 \<le> j \<and> j < MAX_PLAYERS \<and> player_map ?s1 j = Some q)
                   then Option.bind (heap ?s1 q) released else heap ?s1 q)
              = (\<lambda>q. if (\<exists>j. i \<le> j \<and> j < MAX_PLAYERS \<and> player_map s j = Some q)
                      then Option.bind (heap s q) released else heap s q)"
    proof (rule ext)
      fix q
      show "(if (\<exists>j. i + 1 \<le> j \<and> j < MAX_PLAYERS \<and> player_map ?s1 j = Some q)
                   then Option.bind (heap ?s1 q) released else heap ?s1 q)
              = (if (\<exists>j. i \<le> j \<and> j < MAX_PLAYERS \<and> player_map s j = Some q)
                      then Option.bind (heap s q) released else heap s q)"
      proof (cases "q = q0")
        case True
        have no: "\<not> (\<exists>j. i + 1 \<le> j \<and> j < MAX_PLAYERS \<and> player_map s j = Some q0)"
          using later by blast
        have yes: "\<exists>j. i \<le> j \<and> j < MAX_PLAYERS \<and> player_map s j = Some q0"
          using lt Some by (intro exI [of _ i]) simp
        have c1: "(\<exists>j. i + 1 \<le> j \<and> j < MAX_PLAYERS \<and> player_map ?s1 j = Some q) = False"
          using no True by simp
        have c2: "(\<exists>j. i \<le> j \<and> j < MAX_PLAYERS \<and> player_map s j = Some q) = True"
          using yes True by simp
        show ?thesis unfolding c1 c2 using True h0 by simp
      next
        case False
        have "(\<exists>j. i + 1 \<le> j \<and> j < MAX_PLAYERS \<and> player_map s j = Some q)
                = (\<exists>j. i \<le> j \<and> j < MAX_PLAYERS \<and> player_map s j = Some q)"
        proof
          assume "\<exists>j. i + 1 \<le> j \<and> j < MAX_PLAYERS \<and> player_map s j = Some q"
          then show "\<exists>j. i \<le> j \<and> j < MAX_PLAYERS \<and> player_map s j = Some q"
            by (meson add_leD1)
        next
          assume "\<exists>j. i \<le> j \<and> j < MAX_PLAYERS \<and> player_map s j = Some q"
          then obtain j where j: "i \<le> j" "j < MAX_PLAYERS" "player_map s j = Some q" by blast
          with Some False have "j \<noteq> i" by auto
          with j show "\<exists>j. i + 1 \<le> j \<and> j < MAX_PLAYERS \<and> player_map s j = Some q"
            by (intro exI [of _ j]) simp
        qed
        then have c: "(\<exists>j. i + 1 \<le> j \<and> j < MAX_PLAYERS \<and> player_map ?s1 j = Some q)
                = (\<exists>j. i \<le> j \<and> j < MAX_PLAYERS \<and> player_map s j = Some q)"
          by simp
        have h: "heap ?s1 q = heap s q" using False by simp
        show ?thesis unfolding c h by (rule refl)
      qed
    qed
    have step: "for_each_player (\<lambda>q s'. player_unref s' q) i s
                  = for_each_player (\<lambda>q s'. player_unref s' q) (i + 1) ?s1"
      using lt Some h0 by (subst for_each_player.simps) (simp add: player_unref_released)
    show ?thesis
      unfolding step ih fe by simp
  qed
qed

lemma table_okD:
  assumes "table_ok s" "i < MAX_PLAYERS" "player_map s i = Some q"
  shows "\<exists>pl. heap s q = Some pl \<and> of_char (avatar pl) = i"
proof -
  from assms(1,2) have "case player_map s i of
          None \<Rightarrow> True
        | Some q \<Rightarrow> (case heap s q of None \<Rightarrow> False | Some pl \<Rightarrow> of_char (avatar pl) = i)"
    by (simp add: table_ok_def)
  with assms(3) show ?thesis by (simp split: option.splits)
qed

lemma player_fini_unrefs:
  assumes "table_ok s"
  shows "player_fini s
           = Some (s\<lparr> heap := (\<lambda>q. if in_table s q then Option.bind (heap s q) released
                                     else heap s q),
                      map_log := map_log s @ [Map_lock, Map_unlock] \<rparr>)"
proof -
  let ?s0 = "on_map s [Map_lock]"
  have P: "\<forall>j q. 0 \<le> j \<and> j < MAX_PLAYERS \<and> player_map ?s0 j = Some q
             \<longrightarrow> (\<exists>pl. heap ?s0 q = Some pl \<and> of_char (avatar pl) = j)"
    using table_okD [OF assms] by (simp add: on_map_def)
  have it: "(\<exists>j. 0 \<le> j \<and> j < MAX_PLAYERS \<and> player_map ?s0 j = Some q) = in_table s q" for q
    by (auto simp: in_table_def on_map_def)
  show ?thesis
    unfolding player_fini_def unref_loop [OF P] it
    by (simp add: on_map_def cong: if_cong)
qed


lemma player_logout_keeps:
  assumes "player_logout s p = Some s'"
  shows "calls s' = calls s" "shut_down s' = shut_down s" "registry s' = registry s"
  using assms
  by (auto simp: player_logout_def player_send_packet_def send_on_def player_unref_def
      on_map_def maze_remove_player_def Let_def split: option.splits if_splits)

lemma service_cleanup_keeps:
  assumes "service_cleanup s fd pl = Some s'"
  shows "calls s' = calls s" "shut_down s' = shut_down s" "registry s' \<noteq> None"
  using assms
  by (auto simp: service_cleanup_def split: option.splits dest: player_logout_keeps)

lemma sem_wait_empty_keeps:
  "sem_wait_empty s exits = (out, s') \<Longrightarrow>
     calls s' = calls s \<and> shut_down s' = shut_down s \<and>
     (out = Finished \<longrightarrow> registry s' \<noteq> None) \<and>
     (out = Blocked \<longrightarrow> (\<exists>cr. registry s' = Some cr \<and> empty cr = 0))"
proof (induction exits arbitrary: s)
  case Nil
  then show ?case by (auto split: option.splits if_splits)
next
  case (Cons e exits)
  obtain fd pl where e: "e = (fd, pl)" by (cases e)
  show ?case
  proof (cases "registry s")
    case None
    with Cons.prems e show ?thesis by auto
  next
    case (Some cr)
    show ?thesis
    proof (cases "empty cr > 0")
      case True
      with Cons.prems e Some show ?thesis by auto
    next
      case False
      show ?thesis
      proof (cases "service_cleanup s fd pl")
        case None
        with Cons.prems e Some False show ?thesis by auto
      next
        case (Some s1)
        with Cons.prems e \<open>registry s = Some cr\<close> False
        have "sem_wait_empty s1 exits = (out, s')" by simp
        from Cons.IH [OF this] service_cleanup_keeps(1,2) [OF Some] show ?thesis by simp
      qed
    qed
  qed
qed

lemma stop_clients_Finished:
  assumes "stop_clients s exits = (Finished, s3)"
  shows "calls s3 = calls s @ (if listenfd s > 0 then [Close (listenfd s)] else []) @
                      [Creg_shutdown_all, Creg_wait_for_empty]"
    and "\<exists>cr. registry s = Some cr \<and> shut_down s3 = shut_down s @ creg_shutdown_all cr"
  using assms
  by (auto simp: stop_clients_def Let_def split: option.splits if_splits
      dest!: sem_wait_empty_keeps)

lemma stop_clients_Blocked:
  assumes "stop_clients s exits = (Blocked, s3)"
  shows "calls s3 = calls s @ (if listenfd s > 0 then [Close (listenfd s)] else []) @
                      [Creg_shutdown_all, Creg_wait_for_empty]"
    and "\<exists>cr. registry s = Some cr \<and> count cr \<noteq> 0"
    and "\<exists>cr'. registry s3 = Some cr' \<and> empty cr' = 0"
  using assms
  by (auto simp: stop_clients_def Let_def creg_wait_for_empty_def
      split: option.splits if_splits dest!: sem_wait_empty_keeps)

lemma stop_clients_Undefined:
  assumes "stop_clients s exits = (Undefined, s3)"
  shows "calls s3 = calls s @ (if listenfd s > 0 then [Close (listenfd s)] else []) \<or>
         calls s3 = calls s @ (if listenfd s > 0 then [Close (listenfd s)] else []) @
                      [Creg_shutdown_all, Creg_wait_for_empty]"
  using assms
  by (auto simp: stop_clients_def Let_def split: option.splits if_splits
      dest!: sem_wait_empty_keeps)

lemma stop_clients_no_clients:
  assumes "registry s = Some cr" "count cr = 0"
  shows "\<exists>s3. stop_clients s exits = (Finished, s3) \<and> player_map s3 = player_map s \<and>
              heap s3 = heap s"
  using assms by (simp add: stop_clients_def Let_def creg_wait_for_empty_def)

lemma stop_clients_nobody_leaves:
  assumes "registry s = Some cr" "count cr \<noteq> 0" "empty cr = 0"
  shows "fst (stop_clients s []) = Blocked"
  using assms by (simp add: stop_clients_def Let_def creg_wait_for_empty_def)


lemma for_each_player_keeps:
  assumes "\<And>q s s'. body q s = Some s' \<Longrightarrow> f s' = f s"
  shows "for_each_player body i s = Some s' \<Longrightarrow> f s' = f s"
  using assms
proof (induction body i s rule: for_each_player.induct)
  case (1 body i s)
  show ?case
  proof (cases "i < MAX_PLAYERS")
    case False
    with "1.prems"(1) show ?thesis by (simp add: for_each_player.simps)
  next
    case True
    show ?thesis
    proof (cases "player_map s i")
      case None
      with True "1.prems"(1) have "for_each_player body (i + 1) s = Some s'"
        by (simp add: for_each_player.simps [of body i s])
      with True None "1.prems"(2) show ?thesis by (intro "1.IH"(1)) auto
    next
      case (Some q)
      with True "1.prems"(1) obtain s1 where b: "body q s = Some s1"
        and r: "for_each_player body (i + 1) s1 = Some s'"
        by (auto simp: for_each_player.simps [of body i s] split: option.splits)
      have "f s' = f s1"
        using True Some b r "1.prems"(2) by (intro "1.IH"(2)) auto
      with b "1.prems"(2) show ?thesis by simp
    qed
  qed
qed

lemma player_unref_keeps:
  assumes "player_unref s q = Some s'"
  shows "calls s' = calls s" "maze_st s' = maze_st s" "registry s' = registry s"
    "shut_down s' = shut_down s" "closed s' = closed s" "player_map s' = player_map s"
  using assms by (auto simp: player_unref_def split: option.splits if_splits)

lemma player_fini_keeps:
  assumes "player_fini s = Some s'"
  shows "calls s' = calls s" "maze_st s' = maze_st s" "registry s' = registry s"
    "shut_down s' = shut_down s" "closed s' = closed s" "player_map s' = player_map s"
proof -
  from assms obtain s1 where
    l: "for_each_player (\<lambda>q s'. player_unref s' q) 0 (on_map s [Map_lock]) = Some s1"
    and s': "s' = on_map s1 [Map_unlock]"
    by (auto simp: player_fini_def)
  have "calls s1 = calls (on_map s [Map_lock])"
    by (rule for_each_player_keeps [OF _ l]) (rule player_unref_keeps)
  then show "calls s' = calls s" by (simp add: s' on_map_def)
  have "maze_st s1 = maze_st (on_map s [Map_lock])"
    by (rule for_each_player_keeps [OF _ l]) (rule player_unref_keeps)
  then show "maze_st s' = maze_st s" by (simp add: s' on_map_def)
  have "registry s1 = registry (on_map s [Map_lock])"
    by (rule for_each_player_keeps [OF _ l]) (rule player_unref_keeps)
  then show "registry s' = registry s" by (simp add: s' on_map_def)
  have "shut_down s1 = shut_down (on_map s [Map_lock])"
    by (rule for_each_player_keeps [OF _ l]) (rule player_unref_keeps)
  then show "shut_down s' = shut_down s" by (simp add: s' on_map_def)
  have "closed s1 = closed (on_map s [Map_lock])"
    by (rule for_each_player_keeps [OF _ l]) (rule player_unref_keeps)
  then show "closed s' = closed s" by (simp add: s' on_map_def)
  have "player_map s1 = player_map (on_map s [Map_lock])"
    by (rule for_each_player_keeps [OF _ l]) (rule player_unref_keeps)
  then show "player_map s' = player_map s" by (simp add: s' on_map_def)
qed

lemma terminate_result:
  assumes "terminate s status exits = (out, s')"
  shows "(\<exists>s3 s6. out = Finished \<and> stop_clients s exits = (Finished, s3) \<and>
            player_fini (s3\<lparr> registry := None, calls := calls s3 @ [Creg_fini, Player_fini] \<rparr>)
              = Some s6 \<and>
            s' = s6\<lparr> maze_st := maze_fini (maze_st s6),
                     calls := calls s6 @ [Maze_fini, Exit status] \<rparr>) \<or>
         (\<exists>s3. out = Undefined \<and> stop_clients s exits = (Finished, s3) \<and>
            player_fini (s3\<lparr> registry := None, calls := calls s3 @ [Creg_fini, Player_fini] \<rparr>)
              = None \<and>
            s' = s3\<lparr> registry := None, calls := calls s3 @ [Creg_fini, Player_fini] \<rparr>) \<or>
         (out = Blocked \<and> stop_clients s exits = (Blocked, s')) \<or>
         (out = Undefined \<and> stop_clients s exits = (Undefined, s'))"
proof -
  obtain w s3 where sc: "stop_clients s exits = (w, s3)" by (cases "stop_clients s exits")
  show ?thesis
  proof (cases w)
    case Finished
    with assms sc show ?thesis
      by (cases "player_fini (s3\<lparr> registry := None, calls := calls s3 @ [Creg_fini, Player_fini] \<rparr>)")
        (auto simp: terminate_def Let_def)
  next
    case Blocked
    with assms sc show ?thesis by (auto simp: terminate_def)
  next
    case Undefined
    with assms sc show ?thesis by (auto simp: terminate_def)
  qed
qed

lemma table_ok_cong:
  "player_map s' = player_map s \<Longrightarrow> heap s' = heap s \<Longrightarrow> table_ok s' = table_ok s"
  by (simp add: table_ok_def cong: option.case_cong)

lemma in_table_cong:
  "player_map s' = player_map s \<Longrightarrow> in_table s' = in_table s"
  by (simp add: in_table_def fun_eq_iff)

lemma table_okI:
  assumes "\<And>i q. i < MAX_PLAYERS \<Longrightarrow> player_map s i = Some q
             \<Longrightarrow> \<exists>pl. heap s q = Some pl \<and> of_char (avatar pl) = i"
  shows "table_ok s"
  unfolding table_ok_def
proof
  fix i assume "i \<in> {0..<MAX_PLAYERS}"
  then have i: "i < MAX_PLAYERS" by simp
  show "case player_map s i of None \<Rightarrow> True
        | Some q \<Rightarrow> (case heap s q of None \<Rightarrow> False | Some pl \<Rightarrow> of_char (avatar pl) = i)"
  proof (cases "player_map s i")
    case None
    then show ?thesis by simp
  next
    case (Some q)
    from assms [OF i Some] Some show ?thesis by auto
  qed
qed

lemma player_unref_fields:
  assumes "player_unref s p = Some s'"
  shows "\<exists>pl. heap s p = Some pl \<and> heap s' = (heap s)(p := released pl) \<and>
              player_map s' = player_map s"
proof (cases "heap s p")
  case None
  with assms show ?thesis by (simp add: player_unref_def)
next
  case (Some pl)
  with assms have "s' = s\<lparr> heap := (heap s)(p := released pl) \<rparr>"
    by (simp add: player_unref_released)
  with Some show ?thesis by simp
qed

lemma player_send_packet_fields:
  assumes "player_send_packet s p pkt data = Some s'"
  shows "heap s' = heap s" "player_map s' = player_map s"
  using assms by (cases "heap s p"; simp add: player_send_packet_def send_on_def; fastforce)+

lemma player_logout_fields:
  assumes "player_logout s p = Some s'"
  shows "\<exists>pl. heap s p = Some pl \<and> heap s' = (heap s)(p := released pl) \<and>
           player_map s' = (if player_map s (of_char (avatar pl)) = Some p
                            then (player_map s)(of_char (avatar pl) := None) else player_map s)"
proof -
  from assms obtain pl where h: "heap s p = Some pl"
    by (cases "heap s p") (simp_all add: player_logout_def)
  define s0 where "s0 = on_map s [Map_lock, Map_test (of_char (avatar pl))]"
  define s1 where "s1 = (if player_map s0 (of_char (avatar pl)) = Some p
                    then on_map (s0\<lparr> player_map := (player_map s0)(of_char (avatar pl) := None) \<rparr>)
                           [Map_store (of_char (avatar pl)) None, Map_unlock]
                    else on_map s0 [Map_unlock])"
  have h1: "heap s1 = heap s"
    and m1: "player_map s1 = (if player_map s (of_char (avatar pl)) = Some p
                            then (player_map s)(of_char (avatar pl) := None) else player_map s)"
    by (simp_all add: s1_def s0_def)
  have lo: "player_logout s p =
          (case maze_remove_player (maze_st s1) (avatar pl) (row pl) (col pl) of
               None \<Rightarrow> None
             | Some m' \<Rightarrow>
                 (case player_send_packet (s1\<lparr> maze_st := m' \<rparr>) p
                         ((new_packet MZW_SCORE_PKT)\<lparr> param1 := of_char (avatar pl), param2 := -1 \<rparr>)
                         None of
                    None \<Rightarrow> None
                  | Some s2 \<Rightarrow> player_unref s2 p))"
    unfolding player_logout_def s1_def s0_def Let_def h by simp
  from assms [unfolded lo] obtain m' where
    rm: "maze_remove_player (maze_st s1) (avatar pl) (row pl) (col pl) = Some m'"
    by (cases "maze_remove_player (maze_st s1) (avatar pl) (row pl) (col pl)") simp_all
  from assms [unfolded lo rm] obtain s2 where
    sp: "player_send_packet (s1\<lparr> maze_st := m' \<rparr>) p
           ((new_packet MZW_SCORE_PKT)\<lparr> param1 := of_char (avatar pl), param2 := -1 \<rparr>) None
           = Some s2"
    by (cases "player_send_packet (s1\<lparr> maze_st := m' \<rparr>) p
           ((new_packet MZW_SCORE_PKT)\<lparr> param1 := of_char (avatar pl), param2 := -1 \<rparr>) None")
       simp_all
  from assms [unfolded lo rm] sp have un: "player_unref s2 p = Some s'" by simp
  from player_send_packet_fields [OF sp] have h2: "heap s2 = heap s1"
    and m2: "player_map s2 = player_map s1" by simp_all
  from player_unref_fields [OF un] obtain pl2 where
    "heap s2 p = Some pl2" "heap s' = (heap s2)(p := released pl2)" "player_map s' = player_map s2"
    by blast
  with h h1 h2 m1 m2 show ?thesis by simp
qed

lemma player_logout_table_ok:
  assumes "player_logout s p = Some s'" "table_ok s"
  shows "table_ok s'"
proof (rule table_okI)
  fix i q
  assume i: "i < MAX_PLAYERS" and e: "player_map s' i = Some q"
  from player_logout_fields [OF assms(1)] obtain pl where
    h: "heap s p = Some pl" and h': "heap s' = (heap s)(p := released pl)"
    and m': "player_map s' = (if player_map s (of_char (avatar pl)) = Some p
                            then (player_map s)(of_char (avatar pl) := None) else player_map s)"
    by blast
  from e m' have e0: "player_map s i = Some q"
    by (auto split: if_splits)
  from table_okD [OF assms(2) i e0] obtain ql where
    q: "heap s q = Some ql" "of_char (avatar ql) = i" by blast
  have "q \<noteq> p"
  proof
    assume "q = p"
    with q h have "of_char (avatar pl) = i" by simp
    with e0 \<open>q = p\<close> m' e show False by (auto split: if_splits)
  qed
  with q h' show "\<exists>pl. heap s' q = Some pl \<and> of_char (avatar pl) = i" by simp
qed

lemma service_cleanup_table_ok:
  assumes "service_cleanup s fd pl = Some s'" "table_ok s"
  shows "table_ok s'"
proof -
  from assms(1) obtain s2 where
    l: "(case pl of None \<Rightarrow> Some s | Some p \<Rightarrow> player_logout s p) = Some s2"
    and pm: "player_map s' = player_map s2" and hp: "heap s' = heap s2"
    by (auto simp: service_cleanup_def split: option.splits)
  from l assms(2) have "table_ok s2"
    by (cases pl) (auto dest: player_logout_table_ok)
  then show ?thesis using table_ok_cong [OF pm hp] by simp
qed

lemma table_ok_upd:
  "table_ok (s\<lparr> registry := r \<rparr>) = table_ok s"
  "table_ok (s\<lparr> calls := k \<rparr>) = table_ok s"
  "table_ok (s\<lparr> closed := c \<rparr>) = table_ok s"
  "table_ok (s\<lparr> shut_down := d \<rparr>) = table_ok s"
  by (simp_all add: table_ok_def cong: option.case_cong)

lemma sem_wait_empty_table_ok:
  "sem_wait_empty s exits = (out, s') \<Longrightarrow> table_ok s \<Longrightarrow> table_ok s'"
proof (induction exits arbitrary: s)
  case Nil
  then show ?case
    by (auto split: option.splits if_splits simp: table_ok_upd)
next
  case (Cons e exits)
  obtain fd pl where e: "e = (fd, pl)" by (cases e)
  show ?case
  proof (cases "registry s")
    case None
    with Cons.prems e show ?thesis by auto
  next
    case (Some cr)
    show ?thesis
    proof (cases "empty cr > 0")
      case True
      with Cons.prems e Some show ?thesis by (auto simp: table_ok_upd)
    next
      case False
      show ?thesis
      proof (cases "service_cleanup s fd pl")
        case None
        with Cons.prems e \<open>registry s = Some cr\<close> False show ?thesis by auto
      next
        case (Some s1)
        with Cons.prems e \<open>registry s = Some cr\<close> False
        have "sem_wait_empty s1 exits = (out, s')" by simp
        from Cons.IH [OF this service_cleanup_table_ok [OF Some Cons.prems(2)]]
        show ?thesis .
      qed
    qed
  qed
qed

lemma stop_clients_table_ok:
  assumes "stop_clients s exits = (out, s3)" "table_ok s"
  shows "table_ok s3"
  using assms
  by (auto simp: stop_clients_def Let_def table_ok_upd
      split: option.splits if_splits
      dest!: sem_wait_empty_table_ok)




text \<open>
  Claim C7, as the code has it. On the graceful-stop signal \<^verbatim>\<open>terminate\<close> makes its calls in
  this order: it closes the listening socket (when its descriptor is positive), then
  \<^verbatim>\<open>creg_shutdown_all\<close>, \<^verbatim>\<open>creg_wait_for_empty\<close>, then it finalizes the registry, then the
  player module, then the maze, and exits. Whatever the service threads do in the meantime,
  the calls that \<^verbatim>\<open>terminate\<close> has made are an initial part of this sequence, and they are
  the whole sequence exactly when \<^verbatim>\<open>exit\<close> is reached; then every descriptor of the registry
  has been shut down, the registry is freed and the maze is freed. When clients are connected
  and \<^verbatim>\<open>terminate\<close> stays blocked, it is blocked in \<^verbatim>\<open>creg_wait_for_empty\<close>, after the
  first calls, and it does so when no service thread leaves. Once
  \<^verbatim>\<open>creg_wait_for_empty\<close> has returned, which it does at once when no client is connected,
  \<^verbatim>\<open>exit\<close> is reached and \<^verbatim>\<open>player_fini\<close> has dropped one reference of every player that
  was still in the table: that player is freed when it was its last reference and has one
  reference fewer otherwise; the table and the other players are as they were. (Each entry
  of the table is taken to hold an allocated player with the avatar of that entry.)
\<close>

theorem terminate_order:
  assumes "terminate s status exits = (out, s')"
  shows "(\<exists>n. calls s' = calls s @ take n (teardown s status)) \<and>
         (out = Finished) = (calls s' = calls s @ teardown s status) \<and>
         (out = Finished \<longrightarrow>
            registry s' = None \<and> maze (maze_st s') = [] \<and>
            (\<exists>cr. registry s = Some cr \<and> shut_down s' = shut_down s @ creg_shutdown_all cr)) \<and>
         (out = Blocked \<longrightarrow>
            calls s' = calls s @ (if listenfd s > 0 then [Close (listenfd s)] else []) @
                         [Creg_shutdown_all, Creg_wait_for_empty] \<and>
            (\<exists>cr. registry s = Some cr \<and> count cr \<noteq> 0) \<and>
            (\<exists>cr'. registry s' = Some cr' \<and> empty cr' = 0)) \<and>
         (\<forall>s3. stop_clients s exits = (Finished, s3) \<and> table_ok s \<longrightarrow>
            out = Finished \<and> player_map s' = player_map s3 \<and>
            (\<forall>q. heap s' q = (if in_table s3 q then Option.bind (heap s3 q) released
                               else heap s3 q))) \<and>
         (\<forall>cr. registry s = Some cr \<and> count cr = 0 \<and> table_ok s \<longrightarrow>
            out = Finished \<and> player_map s' = player_map s \<and>
            (\<forall>q. heap s' q = (if in_table s q then Option.bind (heap s q) released
                               else heap s q))) \<and>
         (\<forall>cr. registry s = Some cr \<and> count cr \<noteq> 0 \<and> empty cr = 0 \<and> exits = [] \<longrightarrow>
            out = Blocked)"
proof -
  let ?C = "if listenfd s > 0 then [Close (listenfd s)] else []"
  let ?s5 = "\<lambda>s3. s3\<lparr> registry := None, calls := calls s3 @ [Creg_fini, Player_fini] \<rparr>"
  have td: "teardown s status
              = ?C @ [Creg_shutdown_all, Creg_wait_for_empty, Creg_fini, Player_fini, Maze_fini,
                      Exit status]"
    by (simp add: teardown_def)
  have tk: "take (length ?C + k) (teardown s status)
              = ?C @ take k [Creg_shutdown_all, Creg_wait_for_empty, Creg_fini, Player_fini,
                             Maze_fini, Exit status]" for k
    unfolding td by simp
  have heap_after: "out = Finished \<and> player_map s' = player_map s3 \<and>
            (\<forall>q. heap s' q = (if in_table s3 q then Option.bind (heap s3 q) released
                               else heap s3 q))"
    if sc: "stop_clients s exits = (Finished, s3)" and ok: "table_ok s" for s3
  proof -
    have "table_ok s3" using sc ok by (rule stop_clients_table_ok)
    then have "table_ok (?s5 s3)" using table_ok_cong [of "?s5 s3" s3] by simp
    from player_fini_unrefs [OF this]
    have pf: "player_fini (?s5 s3)
           = Some ((?s5 s3)\<lparr> heap := (\<lambda>q. if in_table (?s5 s3) q
                                            then Option.bind (heap (?s5 s3) q) released
                                            else heap (?s5 s3) q),
                      map_log := map_log (?s5 s3) @ [Map_lock, Map_unlock] \<rparr>)" .
    have it: "in_table (?s5 s3) = in_table s3" by (simp add: in_table_def fun_eq_iff)
    from terminate_result [OF assms] sc pf show ?thesis
      by (auto simp: it)
  qed
  from terminate_result [OF assms] consider
      (fin) s3 s6 where "out = Finished" "stop_clients s exits = (Finished, s3)"
        "player_fini (?s5 s3) = Some s6"
        "s' = s6\<lparr> maze_st := maze_fini (maze_st s6), calls := calls s6 @ [Maze_fini, Exit status] \<rparr>"
    | (crash) s3 where "out = Undefined" "stop_clients s exits = (Finished, s3)"
        "player_fini (?s5 s3) = None" "s' = ?s5 s3"
    | (blocked) "out = Blocked" "stop_clients s exits = (Blocked, s')"
    | (undef) "out = Undefined" "stop_clients s exits = (Undefined, s')"
    by blast
  then have main: "(\<exists>n. calls s' = calls s @ take n (teardown s status)) \<and>
         (out = Finished) = (calls s' = calls s @ teardown s status) \<and>
         (out = Finished \<longrightarrow>
            registry s' = None \<and> maze (maze_st s') = [] \<and>
            (\<exists>cr. registry s = Some cr \<and> shut_down s' = shut_down s @ creg_shutdown_all cr)) \<and>
         (out = Blocked \<longrightarrow>
            calls s' = calls s @ ?C @ [Creg_shutdown_all, Creg_wait_for_empty] \<and>
            (\<exists>cr. registry s = Some cr \<and> count cr \<noteq> 0) \<and>
            (\<exists>cr'. registry s' = Some cr' \<and> empty cr' = 0))"
  proof cases
    case fin
    note c3 = stop_clients_Finished [OF fin(2)]
    note k = player_fini_keeps [OF fin(3)]
    have c: "calls s' = calls s @ teardown s status"
      using fin(4) k(1) c3(1) by (simp add: td)
    then have "calls s' = calls s @ take (length ?C + 6) (teardown s status)"
      unfolding tk by (simp add: td)
    then have "\<exists>n. calls s' = calls s @ take n (teardown s status)" by blast
    moreover have "registry s' = None" "maze (maze_st s') = []"
      using fin(4) k(3) by (simp_all add: maze_fini_def)
    moreover have "\<exists>cr. registry s = Some cr \<and> shut_down s' = shut_down s @ creg_shutdown_all cr"
      using fin(4) k(4) c3(2) by simp
    ultimately show ?thesis using fin(1) c by simp
  next
    case crash
    note c3 = stop_clients_Finished [OF crash(2)]
    have "calls s' = calls s @ take (length ?C + 4) (teardown s status)"
      unfolding tk using crash(4) c3(1) by simp
    then have c: "calls s' \<noteq> calls s @ teardown s status"
      by (simp add: td)
    from \<open>calls s' = calls s @ take (length ?C + 4) (teardown s status)\<close>
    have "\<exists>n. calls s' = calls s @ take n (teardown s status)" by blast
    then show ?thesis using crash(1) c by simp
  next
    case blocked
    note c3 = stop_clients_Blocked [OF blocked(2)]
    have "calls s' = calls s @ take (length ?C + 2) (teardown s status)"
      unfolding tk using c3(1) by simp
    then have c: "calls s' \<noteq> calls s @ teardown s status"
      by (simp add: td)
    from \<open>calls s' = calls s @ take (length ?C + 2) (teardown s status)\<close>
    have "\<exists>n. calls s' = calls s @ take n (teardown s status)" by blast
    then show ?thesis using blocked(1) c c3 by simp
  next
    case undef
    note d = stop_clients_Undefined [OF undef(2)]
    then have "calls s' = calls s @ take (length ?C + 0) (teardown s status) \<or>
          calls s' = calls s @ take (length ?C + 2) (teardown s status)"
      unfolding tk by simp
    then have e: "\<exists>n. calls s' = calls s @ take n (teardown s status)" by blast
    from d have "calls s' \<noteq> calls s @ teardown s status"
      by (auto simp: td)
    with e show ?thesis using undef(1) by simp
  qed
  have none: "out = Finished \<and> player_map s' = player_map s \<and>
            (\<forall>q. heap s' q = (if in_table s q then Option.bind (heap s q) released
                               else heap s q))"
    if r: "registry s = Some cr" "count cr = 0" and ok: "table_ok s" for cr
  proof -
    from stop_clients_no_clients [OF r, of exits] obtain s3 where
      sc: "stop_clients s exits = (Finished, s3)" and pm: "player_map s3 = player_map s"
      and hp: "heap s3 = heap s" by blast
    from heap_after [OF sc ok] show ?thesis
      by (simp add: pm hp in_table_cong [OF pm])
  qed
  have stuck: "out = Blocked"
    if r: "registry s = Some cr" "count cr \<noteq> 0" "empty cr = 0" and e: "exits = []" for cr
    using stop_clients_nobody_leaves [OF r] terminate_result [OF assms] e by auto
  from main heap_after none stuck show ?thesis by blast
qed

lemma demo_stop: "fst (stop_clients demo_server demo_exits) = Finished"
  by code_simp

lemma demo_shutdown_all:
  "creg_shutdown_all \<lparr> client_fds = 5 # 6 # 7 # replicate 125 (-1), count = 3, empty = 0 \<rparr>
     = [5, 6, 7]"
  by code_simp

lemma demo_table_ok: "table_ok demo_server"
  by (rule table_okI)
     (auto simp: demo_server_def alice_def bob_def zero_player_def split: if_splits)

lemma leftover_table_ok: "table_ok leftover_server"
  by (rule table_okI)
     (auto simp: leftover_server_def demo_server_def alice_def bob_def zero_player_def split: if_splits)

lemma leftover_in_table:
  "in_table leftover_server 10" "in_table leftover_server 11" "\<not> in_table leftover_server 12"
proof -
  show "in_table leftover_server 10"
    unfolding in_table_def
    by (rule bexI [of _ 65]) (simp_all add: leftover_server_def demo_server_def MAX_PLAYERS_def)
  show "in_table leftover_server 11"
    unfolding in_table_def
    by (rule bexI [of _ 66]) (simp_all add: leftover_server_def demo_server_def MAX_PLAYERS_def)
  show "\<not> in_table leftover_server 12"
    by (simp add: in_table_def leftover_server_def demo_server_def)
qed

lemma for_each_player_empty:
  "\<forall>i. player_map s i = None \<Longrightarrow> for_each_player body i s = Some s"
proof (induction body i s rule: for_each_player.induct)
  case (1 body i s)
  show ?case
  proof (cases "i < MAX_PLAYERS")
    case False
    then show ?thesis by (simp add: for_each_player.simps)
  next
    case True
    then have "for_each_player body (i + 1) s = Some s"
      using "1.prems" by (intro "1.IH"(1)) auto
    then show ?thesis
      using True "1.prems" by (simp add: for_each_player.simps [of body i s])
  qed
qed

lemma idle_table_ok: "table_ok idle_server"
  by (rule table_okI) (simp add: idle_server_def)

lemma demo_drained:
  "closed (snd (terminate demo_server 0 demo_exits)) = [3, 5, 6, 7] \<and>
   heap (snd (terminate demo_server 0 demo_exits)) 10 = None \<and>
   heap (snd (terminate demo_server 0 demo_exits)) 11 = None \<and>
   player_map (snd (terminate demo_server 0 demo_exits)) 65 = None"
  by code_simp


lemma teardown_demo:
  "teardown demo_server 0
     = [Close 3, Creg_shutdown_all, Creg_wait_for_empty, Creg_fini, Player_fini, Maze_fini, Exit 0]"
  "teardown idle_server 0
     = [Close 3, Creg_shutdown_all, Creg_wait_for_empty, Creg_fini, Player_fini, Maze_fini, Exit 0]"
  "teardown leftover_server 0
     = [Close 3, Creg_shutdown_all, Creg_wait_for_empty, Creg_fini, Player_fini, Maze_fini, Exit 0]"
  by (simp_all add: teardown_def demo_server_def idle_server_def leftover_server_def)

lemma idle_terminate:
  "calls (snd (terminate idle_server 0 []))
     = [Close 3, Creg_shutdown_all, Creg_wait_for_empty, Creg_fini, Player_fini, Maze_fini,
        Exit 0]"
proof -
  have e: "player_fini s = Some (on_map (on_map s [Map_lock]) [Map_unlock])"
    if "player_map s = Map.empty" for s
    unfolding player_fini_def using that by (subst for_each_player_empty) simp_all
  show ?thesis
    by (simp add: terminate_def stop_clients_def idle_server_def demo_server_def
        creg_wait_for_empty_def e Let_def)
qed

text \<open>
  Claim C7 as stated fails: it has the registry finalized last, after the player module and
  the maze. The code finalizes the registry first of the three.
\<close>

theorem terminate_registry_before_players:
  "calls (snd (terminate idle_server 0 []))
     = [Close 3, Creg_shutdown_all, Creg_wait_for_empty, Creg_fini, Player_fini, Maze_fini,
        Exit 0] \<and>
   calls (snd (terminate idle_server 0 []))
     \<noteq> [Close 3, Creg_shutdown_all, Creg_wait_for_empty, Player_fini, Maze_fini, Creg_fini,
        Exit 0]"
  by (simp add: idle_terminate)

text \<open>
  Three runs. \<^verbatim>\<open>demo_server\<close> has three clients connected; when their threads leave while
  \<^verbatim>\<open>terminate\<close> waits, it exits after the seven calls, with the three descriptors shut down
  and closed and alice freed by her logout. When none of them leaves, it stays blocked after
  three calls. In \<^verbatim>\<open>leftover_server\<close> no client is connected and two players are in the
  table: alice, who has two references, is left with one, and bob, who has one, is freed.
\<close>

theorem terminate_order_witness:
  "fst (terminate demo_server 0 demo_exits) = Finished \<and>
   calls (snd (terminate demo_server 0 demo_exits))
     = [Close 3, Creg_shutdown_all, Creg_wait_for_empty, Creg_fini, Player_fini, Maze_fini,
        Exit 0] \<and>
   shut_down (snd (terminate demo_server 0 demo_exits)) = [5, 6, 7] \<and>
   closed (snd (terminate demo_server 0 demo_exits)) = [3, 5, 6, 7] \<and>
   registry (snd (terminate demo_server 0 demo_exits)) = None \<and>
   maze (maze_st (snd (terminate demo_server 0 demo_exits))) = [] \<and>
   heap (snd (terminate demo_server 0 demo_exits)) 10 = None \<and>
   fst (terminate demo_server 0 []) = Blocked \<and>
   calls (snd (terminate demo_server 0 []))
     = [Close 3, Creg_shutdown_all, Creg_wait_for_empty] \<and>
   fst (terminate leftover_server 0 []) = Finished \<and>
   calls (snd (terminate leftover_server 0 []))
     = [Close 3, Creg_shutdown_all, Creg_wait_for_empty, Creg_fini, Player_fini, Maze_fini,
        Exit 0] \<and>
   heap (snd (terminate leftover_server 0 [])) 10 = Some (alice\<lparr> ref_count := 1 \<rparr>) \<and>
   heap (snd (terminate leftover_server 0 [])) 11 = None \<and>
   heap (snd (terminate leftover_server 0 [])) 12 = None \<and>
   player_map (snd (terminate leftover_server 0 [])) 65 = Some 10"
proof -
  note D = terminate_order [of demo_server 0 demo_exits, OF surjective_pairing]
  note B = terminate_order [of demo_server 0 "[]", OF surjective_pairing]
  note L = terminate_order [of leftover_server 0 "[]", OF surjective_pairing]
  have ds: "calls demo_server = []" "shut_down demo_server = []" "listenfd demo_server = 3"
    "registry demo_server
       = Some \<lparr> client_fds = [5, 6, 7] @ replicate 125 (-1), count = 3, empty = 0 \<rparr>"
    by (simp_all add: demo_server_def)
  have ls: "calls leftover_server = []"
    "registry leftover_server = Some \<lparr> client_fds = replicate 128 (-1), count = 0, empty = 0 \<rparr>"
    "heap leftover_server 10 = Some (alice\<lparr> ref_count := 2 \<rparr>)" "heap leftover_server 11 = Some bob"
    "heap leftover_server 12 = None" "player_map leftover_server 65 = Some 10"
    by (simp_all add: leftover_server_def demo_server_def)
  have rel: "released (alice\<lparr> ref_count := 2 \<rparr>) = Some (alice\<lparr> ref_count := 1 \<rparr>)"
    "released bob = None"
    by (simp_all add: released_def bob_def)
  have sc: "stop_clients demo_server demo_exits
              = (Finished, snd (stop_clients demo_server demo_exits))"
    using demo_stop by (simp add: prod_eq_iff)
  from D sc demo_table_ok have d1: "fst (terminate demo_server 0 demo_exits) = Finished"
    by blast
  with D have d2: "calls (snd (terminate demo_server 0 demo_exits))
                     = calls demo_server @ teardown demo_server 0"
    and d3: "registry (snd (terminate demo_server 0 demo_exits)) = None"
    and d4: "maze (maze_st (snd (terminate demo_server 0 demo_exits))) = []"
    and d5: "\<exists>cr. registry demo_server = Some cr \<and>
               shut_down (snd (terminate demo_server 0 demo_exits))
                 = shut_down demo_server @ creg_shutdown_all cr"
    by blast+
  from d5 have d6: "shut_down (snd (terminate demo_server 0 demo_exits)) = [5, 6, 7]"
    by (simp add: ds demo_shutdown_all)
  from B ds have b1: "fst (terminate demo_server 0 []) = Blocked"
    by simp
  with B have b2: "calls (snd (terminate demo_server 0 []))
                     = [Close 3, Creg_shutdown_all, Creg_wait_for_empty]"
    by (simp add: ds)
  from L ls(2) leftover_table_ok have l1: "fst (terminate leftover_server 0 []) = Finished"
    and l2: "player_map (snd (terminate leftover_server 0 [])) = player_map leftover_server"
    and l3: "\<forall>q. heap (snd (terminate leftover_server 0 [])) q
                  = (if in_table leftover_server q then Option.bind (heap leftover_server q) released
                     else heap leftover_server q)"
    by simp_all
  from l1 L have l4: "calls (snd (terminate leftover_server 0 []))
                        = calls leftover_server @ teardown leftover_server 0"
    by blast
  from l3 leftover_in_table have l5:
    "heap (snd (terminate leftover_server 0 [])) 10 = Some (alice\<lparr> ref_count := 1 \<rparr>)"
    "heap (snd (terminate leftover_server 0 [])) 11 = None"
    "heap (snd (terminate leftover_server 0 [])) 12 = None"
    by (simp_all add: ls rel)
  from demo_drained have d7: "closed (snd (terminate demo_server 0 demo_exits)) = [3, 5, 6, 7]"
    and d8: "heap (snd (terminate demo_server 0 demo_exits)) 10 = None"
    by simp_all
  show ?thesis
    by (intro conjI d1 d2 [unfolded ds teardown_demo append_Nil] d6 d7 d3 d4 d8 b1 b2 l1
        l4 [unfolded ls teardown_demo append_Nil] l5 l2 [THEN fun_cong, of 65, unfolded ls])
qed


section \<open>Properties of the chat\<close>



lemma for_each_player_sends:
  assumes "body = (\<lambda>q s'. player_send_packet s' q pkt data)"
  shows "for_each_player body i s = Some s' \<Longrightarrow>
           \<exists>fds. sent s' = sent s @ map (\<lambda>fd. (fd, pkt, data)) fds"
  using assms
proof (induction body i s rule: for_each_player.induct)
  case (1 body i s)
  show ?case
  proof (cases "i < MAX_PLAYERS")
    case False
    with "1.prems"(1) have "s' = s" by (simp add: for_each_player.simps)
    then show ?thesis by simp
  next
    case True
    show ?thesis
    proof (cases "player_map s i")
      case None
      with True "1.prems"(1) have "for_each_player body (i + 1) s = Some s'"
        by (simp add: for_each_player.simps [of body i s])
      with True None "1.prems"(2) show ?thesis by (intro "1.IH"(1)) auto
    next
      case (Some q)
      with True "1.prems"(1) obtain s1 where b: "body q s = Some s1"
        and r: "for_each_player body (i + 1) s1 = Some s'"
        by (auto simp: for_each_player.simps [of body i s] split: option.splits)
      from b "1.prems"(2) obtain fd where s1: "sent s1 = sent s @ [(fd, pkt, data)]"
        by (auto simp: player_send_packet_def send_on_def split: option.splits)
      have "\<exists>fds. sent s' = sent s1 @ map (\<lambda>fd. (fd, pkt, data)) fds"
        using True Some b r "1.prems"(2) by (intro "1.IH"(2)) auto
      then obtain fds where "sent s' = sent s1 @ map (\<lambda>fd. (fd, pkt, data)) fds" ..
      with s1 have "sent s' = sent s @ map (\<lambda>fd. (fd, pkt, data)) (fd # fds)" by simp
      then show ?thesis by blast
    qed
  qed
qed

lemma unat_size_of_length: "unat (word_of_int (int n) :: 16 word) = n mod 65536"
  by (simp add: unat_of_nat)

lemma chat_frame_size:
  "unat (size' (fst (chat_frame buf0 pl msg len))) = length (chat_text pl msg len) mod 65536"
proof -
  have "size' (fst (chat_frame buf0 pl msg len)) = word_of_int (int (length (chat_text pl msg len)))"
    by (simp add: chat_frame_def snprintf_def)
  then show ?thesis
    by (simp only: unat_size_of_length)
qed

lemma chat_frame_buf:
  assumes "length buf0 = 1024"
  shows "length (snd (chat_frame buf0 pl msg len)) = 1024"
    and "take (min 1023 (length (chat_text pl msg len))) (snd (chat_frame buf0 pl msg len))
           = take 1023 (chat_text pl msg len)"
    and "snd (chat_frame buf0 pl msg len) ! min 1023 (length (chat_text pl msg len)) = CHR 0x00"
  using assms by (auto simp: chat_frame_def snprintf_def nth_append min_def)

text \<open>
  Claim C9, as the code has it. \<^verbatim>\<open>player_send_chat\<close> sends every player the same \<^verbatim>\<open>CHAT\<close>
  frame: its payload is the 1024-byte buffer, which holds the first 1023 bytes of the
  formatted text \<^verbatim>\<open>name[avatar] msg\<close> (all of it when it is shorter) and a zero byte after
  them; its size field is the return value of \<^verbatim>\<open>snprintf\<close>, the length L of the whole
  formatted text, reduced modulo 65536 because the field has 16 bits. So for L below 1024 the
  size field is L, the number of valid payload bytes; for L from 1024 to 65535 it is L, which
  is more than the 1023 bytes of text in the buffer (and more than the buffer itself from 1025
  on); from 65536 on it is no longer the return value of \<^verbatim>\<open>snprintf\<close>.
\<close>

theorem chat_size_field:
  assumes "heap s p = Some pl" and "length (uninit_buf s) = 1024"
    and "player_send_chat s p msg len = Some s'"
  shows "(\<exists>fds. sent s' = sent s @
            map (\<lambda>fd. (fd, fst (chat_frame (uninit_buf s) pl msg len),
                         Some (snd (chat_frame (uninit_buf s) pl msg len)))) fds) \<and>
         type (fst (chat_frame (uninit_buf s) pl msg len)) = MZW_CHAT_PKT \<and>
         unat (size' (fst (chat_frame (uninit_buf s) pl msg len)))
           = length (chat_text pl msg len) mod 65536 \<and>
         length (snd (chat_frame (uninit_buf s) pl msg len)) = 1024 \<and>
         take (min 1023 (length (chat_text pl msg len))) (snd (chat_frame (uninit_buf s) pl msg len))
           = take 1023 (chat_text pl msg len) \<and>
         (length (chat_text pl msg len) < 1024 \<longrightarrow>
            unat (size' (fst (chat_frame (uninit_buf s) pl msg len)))
              = length (chat_text pl msg len) \<and>
            take (length (chat_text pl msg len)) (snd (chat_frame (uninit_buf s) pl msg len))
              = chat_text pl msg len) \<and>
         (1024 \<le> length (chat_text pl msg len) \<and> length (chat_text pl msg len) < 65536 \<longrightarrow>
            unat (size' (fst (chat_frame (uninit_buf s) pl msg len)))
              = length (chat_text pl msg len) \<and>
            unat (size' (fst (chat_frame (uninit_buf s) pl msg len))) > 1023)"
proof -
  let ?fr = "chat_frame (uninit_buf s) pl msg len"
  have "for_each_player (\<lambda>q s'. player_send_packet s' q (fst ?fr) (Some (snd ?fr))) 0 s = Some s'"
    using assms(1,3) by (simp add: player_send_chat_def split: prod.splits)
  then have a: "\<exists>fds. sent s' = sent s @ map (\<lambda>fd. (fd, fst ?fr, Some (snd ?fr))) fds"
    by (rule for_each_player_sends [OF refl])
  have b: "type (fst ?fr) = MZW_CHAT_PKT"
    by (simp add: chat_frame_def new_packet_def split: prod.splits)
  note c = chat_frame_size [of "uninit_buf s" pl msg len]
  note d = chat_frame_buf [OF assms(2), of pl msg len]
  have e: "take (length (chat_text pl msg len)) (snd ?fr) = chat_text pl msg len"
    if "length (chat_text pl msg len) < 1024"
  proof (cases "length (chat_text pl msg len) = 1023")
    case True
    with d(2) show ?thesis by simp
  next
    case False
    with that have "min 1023 (length (chat_text pl msg len)) = length (chat_text pl msg len)"
      by simp
    with d(2) that show ?thesis by simp
  qed
  from a b c d(1,2) e show ?thesis
    by simp
qed

lemma long_chat_length:
  "length (chat_text long_alice (replicate 30000 (CHR ''b'')) 30000) = 70004"
  by (simp add: chat_text_def long_alice_def alice_def takeWhile_replicate)

text \<open>
  Claim C9 as stated fails: with a name of 40000 bytes and a message of 30000 bytes the
  formatted text has 70004 bytes, which is what \<^verbatim>\<open>snprintf\<close> returns, and the size field is
  4468.
\<close>

theorem chat_size_wraps:
  "length (chat_text long_alice (replicate 30000 (CHR ''b'')) 30000) = 70004 \<and>
   snd (snprintf (replicate 1024 (CHR ''?'')) 1024
          (chat_text long_alice (replicate 30000 (CHR ''b'')) 30000)) = 70004 \<and>
   unat (size' (fst (chat_frame (replicate 1024 (CHR ''?'')) long_alice
                       (replicate 30000 (CHR ''b'')) 30000))) = 4468"
  by (simp add: chat_frame_size long_chat_length snprintf_def)

lemma demo_chat_runs: "player_send_chat demo_server 10 ''hi'' 2 \<noteq> None"
  by code_simp

lemma demo_chat_text: "chat_text alice ''hi'' 2 = ''alice[A] hi''"
  by (simp add: chat_text_def alice_def)

theorem chat_size_field_witness:
  "heap demo_server 10 = Some alice \<and> length (uninit_buf demo_server) = 1024 \<and>
   chat_text alice ''hi'' 2 = ''alice[A] hi'' \<and>
   (\<exists>s'. player_send_chat demo_server 10 ''hi'' 2 = Some s' \<and>
      (\<exists>fds. sent s' = sent demo_server @
          map (\<lambda>fd. (fd, fst (chat_frame (uninit_buf demo_server) alice ''hi'' 2),
                       Some (snd (chat_frame (uninit_buf demo_server) alice ''hi'' 2)))) fds)) \<and>
   unat (size' (fst (chat_frame (uninit_buf demo_server) alice ''hi'' 2))) = 11 \<and>
   length (snd (chat_frame (uninit_buf demo_server) alice ''hi'' 2)) = 1024 \<and>
   take 11 (snd (chat_frame (uninit_buf demo_server) alice ''hi'' 2)) = ''alice[A] hi''"
proof -
  have h: "heap demo_server 10 = Some alice"
    by (simp add: demo_server_def)
  have l: "length (uninit_buf demo_server) = 1024"
    by (simp add: demo_server_def)
  from demo_chat_runs obtain s' where run: "player_send_chat demo_server 10 ''hi'' 2 = Some s'"
    by blast
  have len: "length (chat_text alice ''hi'' 2) = 11"
    by (simp add: demo_chat_text)
  note th = chat_size_field [OF h l run, unfolded len]
  from th len have fds:
    "\<exists>fds. sent s' = sent demo_server @
          map (\<lambda>fd. (fd, fst (chat_frame (uninit_buf demo_server) alice ''hi'' 2),
                       Some (snd (chat_frame (uninit_buf demo_server) alice ''hi'' 2)))) fds"
    and sz: "unat (size' (fst (chat_frame (uninit_buf demo_server) alice ''hi'' 2))) = 11"
    and bl: "length (snd (chat_frame (uninit_buf demo_server) alice ''hi'' 2)) = 1024"
    and "take 11 (snd (chat_frame (uninit_buf demo_server) alice ''hi'' 2))
           = chat_text alice ''hi'' 2"
    by simp_all
  then have tk: "take 11 (snd (chat_frame (uninit_buf demo_server) alice ''hi'' 2)) = ''alice[A] hi''"
    by (simp only: demo_chat_text)
  from run fds have ex: "\<exists>s'. player_send_chat demo_server 10 ''hi'' 2 = Some s' \<and>
      (\<exists>fds. sent s' = sent demo_server @
          map (\<lambda>fd. (fd, fst (chat_frame (uninit_buf demo_server) alice ''hi'' 2),
                       Some (snd (chat_frame (uninit_buf demo_server) alice ''hi'' 2)))) fds)"
    by blast
  show ?thesis
    by (intro conjI h l demo_chat_text ex sz bl tk)
qed

end
